theory Spec2Isabelle
  imports Main "HOL-Library.Sublist" "HOL-Library.Char_ord" "HOL-Library.List_Lexorder"
    "HOL-Library.AList"
begin

section \<open>Characters and strings\<close>

text \<open>
  A Python \<open>str\<close> is a sequence of code points. The model reads a \<^typ>\<open>char\<close> as the
  code point of the same number, so a \<^typ>\<open>string\<close> is a Python string over the code
  points 0 to 255. The character classes below are those of Python 3 on that range:
  \<open>str.isspace\<close> (also the class \<open>\s\<close> and what \<open>str.strip()\<close> removes), the class
  \<open>\d\<close>, the class \<open>\w\<close>, the line boundaries of \<open>str.splitlines()\<close> and
  \<open>str.lower()\<close>.
\<close>

abbreviation TAB :: char where "TAB \<equiv> CHR 0x09"
abbreviation LF :: char where "LF \<equiv> CHR 0x0A"
abbreviation CR :: char where "CR \<equiv> CHR 0x0D"
abbreviation SP :: char where "SP \<equiv> CHR 0x20"

definition code :: "char \<Rightarrow> nat" where
  "code c = of_char c"

definition is_space :: "char \<Rightarrow> bool" where
  "is_space c = (code c \<in> set [9, 10, 11, 12, 13, 28, 29, 30, 31, 32, 133, 160])"

definition is_digit :: "char \<Rightarrow> bool" where
  "is_digit c = (48 \<le> code c \<and> code c \<le> 57)"

definition is_word :: "char \<Rightarrow> bool" where
  "is_word c =
     (is_digit c \<or> (65 \<le> code c \<and> code c \<le> 90) \<or> code c = 95
      \<or> (97 \<le> code c \<and> code c \<le> 122)
      \<or> code c \<in> set [170, 178, 179, 181, 185, 186, 188, 189, 190]
      \<or> (192 \<le> code c \<and> code c \<noteq> 215 \<and> code c \<noteq> 247))"

definition is_linebreak :: "char \<Rightarrow> bool" where
  "is_linebreak c = (code c \<in> set [10, 11, 12, 13, 28, 29, 30, 133])"

definition lower_c :: "char \<Rightarrow> char" where
  "lower_c c =
     (if (65 \<le> code c \<and> code c \<le> 90) \<or> (192 \<le> code c \<and> code c \<le> 222 \<and> code c \<noteq> 215)
      then char_of (code c + 32) else c)"

definition lower :: "string \<Rightarrow> string" where
  "lower s = map lower_c s"

definition lstrip :: "string \<Rightarrow> string" where
  "lstrip s = dropWhile is_space s"

definition rstrip :: "string \<Rightarrow> string" where
  "rstrip s = rev (dropWhile is_space (rev s))"

definition strip :: "string \<Rightarrow> string" where
  "strip s = rstrip (lstrip s)"

text \<open>
  \<open>str.splitlines()\<close>: the text is cut at every line boundary, \<open>\r\n\<close> counting as one;
  the boundaries are dropped, and a text that ends with a boundary has no empty last line.
\<close>

fun splitlines_from :: "string \<Rightarrow> string \<Rightarrow> string list" where
  "splitlines_from cur [] = (if cur = [] then [] else [cur])"
| "splitlines_from cur (c # cs) =
     (if c = CR \<and> cs \<noteq> [] \<and> hd cs = LF then cur # splitlines_from [] (tl cs)
      else if is_linebreak c then cur # splitlines_from [] cs
      else splitlines_from (cur @ [c]) cs)"

definition splitlines :: "string \<Rightarrow> string list" where
  "splitlines s = splitlines_from [] s"

text \<open>\<open>sep.join(xs)\<close>.\<close>

fun join :: "string \<Rightarrow> string list \<Rightarrow> string" where
  "join sep [] = []"
| "join sep [x] = x"
| "join sep (x # y # ys) = x @ sep @ join sep (y # ys)"

text \<open>\<open>xs[a:b]\<close> for indices that are not negative; a slice never raises.\<close>

definition slice :: "'a list \<Rightarrow> nat \<Rightarrow> nat \<Rightarrow> 'a list" where
  "slice xs a b = drop a (take b xs)"

text \<open>\<open>sub in s\<close> on strings is \<^const>\<open>sublist\<close>: \<open>s\<close> has \<open>sub\<close> as a contiguous part.\<close>

section \<open>Errors\<close>

text \<open>
  The exceptions the parsing code could raise are values: an index out of range and a
  missing dictionary key. A computation that may raise returns \<open>py_error + 'a\<close>.
\<close>

datatype py_error = IndexError | KeyError

definition index :: "'a list \<Rightarrow> nat \<Rightarrow> py_error + 'a" where
  "index xs i = (if i < length xs then Inr (xs ! i) else Inl IndexError)"

definition bind_err :: "py_error + 'a \<Rightarrow> ('a \<Rightarrow> py_error + 'b) \<Rightarrow> py_error + 'b" where
  "bind_err m f = (case m of Inl e \<Rightarrow> Inl e | Inr x \<Rightarrow> f x)"

text \<open>A \<open>for\<close> loop whose body may raise: the first error ends the loop.\<close>

fun for_loop :: "'a list \<Rightarrow> ('a \<Rightarrow> 's \<Rightarrow> py_error + 's) \<Rightarrow> 's \<Rightarrow> py_error + 's" where
  "for_loop [] body st = Inr st"
| "for_loop (x # xs) body st = bind_err (body x st) (for_loop xs body)"

section \<open>Regular expressions\<close>

text \<open>
  The patterns of the program are values of \<open>regex\<close>, and \<open>rmatch\<close> is the backtracking
  matcher of Python's \<open>re\<close> module on them: it returns every way the pattern matches at the
  current position, in the order in which backtracking tries them, so the head of the list
  is the match \<open>re\<close> reports. A state is the character before the position (for \<open>\b\<close>), the
  rest of the text, and the groups captured so far. Repetition is greedy, and is only needed
  over a character class: \<open>Rep f m n\<close> is \<open>[f]{m,n}\<close>, with \<open>None\<close> for no upper bound.
  With \<open>ic\<close> (the flag \<open>re.IGNORECASE\<close>) a literal matches the characters that have its
  lower case; the classes of the program's patterns hold no letter.
\<close>

datatype regex =
    Eps
  | Chr char
  | Cls "char \<Rightarrow> bool"
  | Rep "char \<Rightarrow> bool" nat "nat option"
  | Seq regex regex
  | Alt regex regex
  | Opt regex
  | Grp nat regex
  | Bnd

type_synonym groups = "(nat \<times> string) list"
type_synonym mstate = "char option \<times> string \<times> groups"

definition chr_eq :: "bool \<Rightarrow> char \<Rightarrow> char \<Rightarrow> bool" where
  "chr_eq ic c x = (if ic then lower_c x = lower_c c else x = c)"

definition below_max :: "nat \<Rightarrow> nat option \<Rightarrow> bool" where
  "below_max k n = (case n of None \<Rightarrow> True | Some n' \<Rightarrow> k < n')"

fun rep_states :: "(char \<Rightarrow> bool) \<Rightarrow> nat \<Rightarrow> nat option \<Rightarrow> nat \<Rightarrow> mstate \<Rightarrow> mstate list" where
  "rep_states f m n k (p, [], g) = (if m \<le> k then [(p, [], g)] else [])"
| "rep_states f m n k (p, c # cs, g) =
     (if f c \<and> below_max k n then rep_states f m n (Suc k) (Some c, cs, g) else [])
     @ (if m \<le> k then [(p, c # cs, g)] else [])"

definition word_before :: "char option \<Rightarrow> bool" where
  "word_before p = (case p of None \<Rightarrow> False | Some c \<Rightarrow> is_word c)"

definition word_after :: "string \<Rightarrow> bool" where
  "word_after s = (case s of [] \<Rightarrow> False | c # _ \<Rightarrow> is_word c)"

fun rmatch :: "bool \<Rightarrow> regex \<Rightarrow> mstate \<Rightarrow> mstate list" where
  "rmatch ic Eps st = [st]"
| "rmatch ic (Chr c) (p, s, g) =
     (case s of [] \<Rightarrow> [] | x # xs \<Rightarrow> if chr_eq ic c x then [(Some x, xs, g)] else [])"
| "rmatch ic (Cls f) (p, s, g) =
     (case s of [] \<Rightarrow> [] | x # xs \<Rightarrow> if f x then [(Some x, xs, g)] else [])"
| "rmatch ic (Rep f m n) st = rep_states f m n 0 st"
| "rmatch ic (Seq a b) st = concat (map (\<lambda>st'. rmatch ic b st') (rmatch ic a st))"
| "rmatch ic (Alt a b) st = rmatch ic a st @ rmatch ic b st"
| "rmatch ic (Opt a) st = rmatch ic a st @ [st]"
| "rmatch ic (Grp i a) (p, s, g) =
     map (\<lambda>(p', s', g'). (p', s', (i, take (length s - length s') s) # g'))
       (rmatch ic a (p, s, g))"
| "rmatch ic Bnd (p, s, g) = (if word_before p \<noteq> word_after s then [(p, s, g)] else [])"

text \<open>A literal string as a pattern.\<close>

fun lit :: "string \<Rightarrow> regex" where
  "lit [] = Eps"
| "lit [c] = Chr c"
| "lit (c # d # cs) = Seq (Chr c) (lit (d # cs))"

text \<open>
  \<open>pattern.search(s)\<close>: the start positions are tried from the left; the result is the
  matched text and the groups of the first match, or \<open>None\<close>.
\<close>

fun re_search_from :: "bool \<Rightarrow> regex \<Rightarrow> char option \<Rightarrow> string \<Rightarrow> (string \<times> groups) option" where
  "re_search_from ic r p [] =
     (case rmatch ic r (p, [], []) of [] \<Rightarrow> None | (p', s', g) # _ \<Rightarrow> Some ([], g))"
| "re_search_from ic r p (c # cs) =
     (case rmatch ic r (p, c # cs, []) of
        [] \<Rightarrow> re_search_from ic r (Some c) cs
      | (p', s', g) # _ \<Rightarrow> Some (take (length (c # cs) - length s') (c # cs), g))"

definition re_search :: "bool \<Rightarrow> regex \<Rightarrow> string \<Rightarrow> (string \<times> groups) option" where
  "re_search ic r s = re_search_from ic r None s"

definition re_found :: "bool \<Rightarrow> regex \<Rightarrow> string \<Rightarrow> bool" where
  "re_found ic r s = (re_search ic r s \<noteq> None)"

text \<open>
  The scan behind \<open>finditer\<close>, \<open>findall\<close>, \<open>sub\<close> and \<open>split\<close>: the text from left to right
  as a list of events, a character outside every match (\<open>Inl\<close>) or a match with its groups
  (\<open>Inr\<close>); after a match the scan goes on where the match ended. No pattern of the program
  matches the empty string; for such a match the scan records it and moves one character on.
\<close>

function re_scan :: "bool \<Rightarrow> regex \<Rightarrow> char option \<Rightarrow> string \<Rightarrow> (char + string \<times> groups) list" where
  "re_scan ic r p s =
     (case rmatch ic r (p, s, []) of
        [] \<Rightarrow> (case s of [] \<Rightarrow> [] | c # cs \<Rightarrow> Inl c # re_scan ic r (Some c) cs)
      | (p', s', g) # _ \<Rightarrow>
          if length s' < length s
          then Inr (take (length s - length s') s, g) # re_scan ic r p' s'
          else (case s of [] \<Rightarrow> [Inr ([], g)]
                | c # cs \<Rightarrow> Inr ([], g) # Inl c # re_scan ic r (Some c) cs))"
  by pat_completeness auto
termination
  by (relation "measure (\<lambda>(ic, r, p, s). length s)") auto

declare re_scan.simps [simp del]

fun hits :: "(char + string \<times> groups) list \<Rightarrow> (string \<times> groups) list" where
  "hits [] = []"
| "hits (Inl c # es) = hits es"
| "hits (Inr m # es) = m # hits es"

definition re_finditer :: "bool \<Rightarrow> regex \<Rightarrow> string \<Rightarrow> (string \<times> groups) list" where
  "re_finditer ic r s = hits (re_scan ic r None s)"

text \<open>\<open>m.group(i)\<close> as \<open>findall\<close> reports it: the empty string for a group that took no part.\<close>

definition group_text :: "groups \<Rightarrow> nat \<Rightarrow> string" where
  "group_text g i = (case map_of g i of None \<Rightarrow> [] | Some t \<Rightarrow> t)"

text \<open>\<open>findall\<close> for a pattern without groups: the matched texts.\<close>

definition re_findall :: "bool \<Rightarrow> regex \<Rightarrow> string \<Rightarrow> string list" where
  "re_findall ic r s = map fst (re_finditer ic r s)"

text \<open>\<open>findall\<close> for a pattern with \<open>n > 1\<close> groups: one tuple of the \<open>n\<close> groups per match.\<close>

definition re_findall_groups :: "bool \<Rightarrow> regex \<Rightarrow> nat \<Rightarrow> string \<Rightarrow> string list list" where
  "re_findall_groups ic r n s = map (\<lambda>(m, g). map (group_text g) [1..<Suc n]) (re_finditer ic r s)"

text \<open>\<open>re.sub(pattern, repl, s)\<close> for a replacement without group references.\<close>

fun sub_event :: "string \<Rightarrow> char + string \<times> groups \<Rightarrow> string" where
  "sub_event repl (Inl c) = [c]"
| "sub_event repl (Inr m) = repl"

definition re_sub :: "bool \<Rightarrow> regex \<Rightarrow> string \<Rightarrow> string \<Rightarrow> string" where
  "re_sub ic r repl s = concat (map (sub_event repl) (re_scan ic r None s))"

text \<open>\<open>re.split(pattern, s)\<close> for a pattern without groups: the texts between the matches.\<close>

fun pieces :: "string \<Rightarrow> (char + string \<times> groups) list \<Rightarrow> string list" where
  "pieces cur [] = [cur]"
| "pieces cur (Inl c # es) = pieces (cur @ [c]) es"
| "pieces cur (Inr m # es) = cur # pieces [] es"

definition re_split :: "bool \<Rightarrow> regex \<Rightarrow> string \<Rightarrow> string list" where
  "re_split ic r s = pieces [] (re_scan ic r None s)"

text \<open>
  The substitution for a repeated class \<open>[f]{m,}\<close>, started with any character before the
  text; \<open>re_sub\<close> on such a pattern is the case \<open>None\<close>.
\<close>

definition subst :: "(char \<Rightarrow> bool) \<Rightarrow> nat \<Rightarrow> string \<Rightarrow> char option \<Rightarrow> string \<Rightarrow> string" where
  "subst f m repl p s = concat (map (sub_event repl) (re_scan False (Rep f m None) p s))"

text \<open>
  Two properties of a pattern, used to cut a scan at a character: whether some part of the
  pattern can take the character \<open>x\<close>, and whether the pattern has a \<open>\b\<close>; and a state
  with more text after it.
\<close>

fun consumes :: "bool \<Rightarrow> regex \<Rightarrow> char \<Rightarrow> bool" where
  "consumes ic Eps x = False"
| "consumes ic (Chr c) x = chr_eq ic c x"
| "consumes ic (Cls f) x = f x"
| "consumes ic (Rep f m n) x = f x"
| "consumes ic (Seq a b) x = (consumes ic a x \<or> consumes ic b x)"
| "consumes ic (Alt a b) x = (consumes ic a x \<or> consumes ic b x)"
| "consumes ic (Opt a) x = consumes ic a x"
| "consumes ic (Grp i a) x = consumes ic a x"
| "consumes ic Bnd x = False"



section \<open>Cleaning\<close>

definition is_ctrl :: "char \<Rightarrow> bool" where
  "is_ctrl c = (code c \<le> 8 \<or> code c = 11 \<or> code c = 12 \<or> (14 \<le> code c \<and> code c \<le> 31))"

definition is_blank :: "char \<Rightarrow> bool" where
  "is_blank c = (c = SP \<or> c = TAB)"

abbreviation is_lf :: "char \<Rightarrow> bool" where
  "is_lf \<equiv> (\<lambda>c. c = LF)"

definition clean_text :: "string \<Rightarrow> string" where
  "clean_text text =
     (let text = map (\<lambda>c. if c = CR then LF else c) text;
          text = re_sub False (Rep is_blank 1 None) [SP] text;
          text = re_sub False (Rep is_lf 3 None) [LF, LF] text;
          text = re_sub False (Rep is_ctrl 1 None) [] text
      in strip text)"

section \<open>Section splitting\<close>

definition heading :: "string \<Rightarrow> regex" where
  "heading w = Seq Bnd (Seq (lit w) Bnd)"

definition SECTION_HEADERS :: "regex list" where
  "SECTION_HEADERS =
     [heading ''experience'', heading ''work experience'', heading ''professional experience'',
      heading ''education'', heading ''skills'', heading ''technical skills'',
      heading ''projects'', heading ''certifications'', heading ''about'', heading ''summary'',
      heading ''objective'']"

text \<open>The inner loop over \<open>SECTION_HEADERS\<close> with its \<open>break\<close>: does some pattern match.\<close>

definition is_header :: "string \<Rightarrow> bool" where
  "is_header norm = list_ex (\<lambda>hdr. re_found False hdr norm) SECTION_HEADERS"

text \<open>The loop over \<open>enumerate(lines)\<close> that collects \<open>header_idxs\<close>, from index \<open>i\<close> on.\<close>

fun header_lines :: "nat \<Rightarrow> string list \<Rightarrow> (nat \<times> string) list" where
  "header_lines i [] = []"
| "header_lines i (line # rest) =
     (let norm = lower (strip line)
      in if is_header norm then (i, norm) # header_lines (Suc i) rest
         else header_lines (Suc i) rest)"

text \<open>
  A dictionary keeps its keys in insertion order, and a key assigned again keeps its place:
  an association list with \<^const>\<open>AList.update\<close>.
\<close>

type_synonym sections = "(string \<times> string) list"

definition dict_get :: "('k \<times> 'v) list \<Rightarrow> 'k \<Rightarrow> py_error + 'v" where
  "dict_get d k = (case map_of d k of None \<Rightarrow> Inl KeyError | Some v \<Rightarrow> Inr v)"

definition enumerate_list :: "'a list \<Rightarrow> (nat \<times> 'a) list" where
  "enumerate_list xs = zip [0..<length xs] xs"

text \<open>The body of the loop over \<open>enumerate(header_idxs)\<close>.\<close>

definition add_section ::
  "string list \<Rightarrow> (nat \<times> string) list \<Rightarrow> nat \<times> nat \<times> string \<Rightarrow> sections \<Rightarrow> py_error + sections" where
  "add_section lines header_idxs item sections =
     (case item of (idx, line_no, norm) \<Rightarrow>
        let start = line_no + 1 in
        bind_err (if idx + 1 < length header_idxs
                  then bind_err (index header_idxs (idx + 1)) (\<lambda>nxt. Inr (fst nxt))
                  else Inr (length lines)) (\<lambda>end.
        bind_err (index lines line_no) (\<lambda>header_line.
        let header = strip header_line
        in Inr (AList.update (lower header) (strip (join [LF] (slice lines start end)))
                  sections))))"

definition split_sections :: "string \<Rightarrow> py_error + sections" where
  "split_sections text =
     (let lines = splitlines text;
          header_idxs = header_lines 0 lines
      in if header_idxs = [] then Inr [(''main'', text)]
         else
           bind_err (for_loop (enumerate_list header_idxs) (add_section lines header_idxs) [])
             (\<lambda>sections.
           bind_err (index header_idxs 0) (\<lambda>h0.
           let first_header_line = fst h0;
               top_text = strip (join [LF] (slice lines 0 first_header_line))
           in Inr (if top_text \<noteq> [] then AList.update ''top'' top_text sections
                   else sections))))"

section \<open>Contact extraction\<close>

record ContactInfo =
  emails :: "string list"
  phones :: "string list"
  linkedin :: "string list"

definition email_chr :: "char \<Rightarrow> bool" where
  "email_chr c = (is_word c \<or> c = CHR ''.'' \<or> c = CHR ''-'')"

definition EMAIL_RE :: regex where
  "EMAIL_RE =
     Seq (Rep email_chr 1 None) (Seq (Chr (CHR ''@'')) (Seq (Rep email_chr 1 None)
       (Seq (Chr (CHR ''.'')) (Rep is_word 1 None))))"

definition phone_sep :: "char \<Rightarrow> bool" where
  "phone_sep c = (c = CHR ''-'' \<or> c = CHR ''.'' \<or> is_space c)"

definition phone_chr :: "char \<Rightarrow> bool" where
  "phone_chr c = (is_digit c \<or> c = CHR ''-'' \<or> c = CHR ''.'' \<or> is_space c)"

definition PHONE_RE :: regex where
  "PHONE_RE =
     Seq (Opt (Grp 1 (Seq (Opt (Chr (CHR ''+''))) (Seq (Rep is_digit 1 (Some 3))
            (Opt (Cls phone_sep))))))
      (Seq (Opt (Grp 2 (Seq (Opt (Chr (CHR ''(''))) (Seq (Rep is_digit 2 (Some 4))
            (Seq (Opt (Chr (CHR '')''))) (Opt (Cls phone_sep)))))))
        (Rep phone_chr 6 (Some 15)))"

definition linkedin_chr :: "char \<Rightarrow> bool" where
  "linkedin_chr c = (is_word c \<or> c = CHR ''-'' \<or> c = CHR ''/'')"

definition LINKEDIN_RE :: regex where
  "LINKEDIN_RE =
     Seq (Opt (Grp 1 (Seq (lit ''http'') (Seq (Opt (Chr (CHR ''s''))) (lit ''://'')))))
      (Seq (Opt (Grp 2 (lit ''www.'')))
        (Seq (lit ''linkedin.com/'') (Rep linkedin_chr 1 None)))"

text \<open>\<open>list(dict.fromkeys(xs))\<close>: the elements of \<open>xs\<close> once each, in the order first seen.\<close>

fun fromkeys :: "'a list \<Rightarrow> 'a list \<Rightarrow> 'a list" where
  "fromkeys seen [] = seen"
| "fromkeys seen (x # xs) = fromkeys (if x \<in> set seen then seen else seen @ [x]) xs"

text \<open>\<open>re.sub(r"\D", "", candidate)\<close>.\<close>

definition digits_of :: "string \<Rightarrow> string" where
  "digits_of candidate = re_sub False (Cls (\<lambda>c. \<not> is_digit c)) [] candidate"

text \<open>
  The body of the loop over \<open>PHONE_RE.finditer(text)\<close>. The candidates are a Python set;
  the model keeps them as a list without repetition, in the order added. Python fixes no
  order for \<open>list(phone_candidates)\<close>, so only the set of \<open>phones\<close> is meaningful.
\<close>

definition add_phone :: "string list \<Rightarrow> string \<times> groups \<Rightarrow> string list" where
  "add_phone phone_candidates m =
     (let candidate = strip (fst m);
          digits = digits_of candidate
      in if 7 \<le> length digits \<and> length digits \<le> 15
         then (if candidate \<in> set phone_candidates then phone_candidates
               else phone_candidates @ [candidate])
         else phone_candidates)"

definition extract_contact :: "string \<Rightarrow> ContactInfo" where
  "extract_contact text =
     (let emails = re_findall False EMAIL_RE text;
          phone_candidates = foldl add_phone [] (re_finditer False PHONE_RE text);
          linkedin_urls = map (\<lambda>m. strip (fst m)) (re_finditer False LINKEDIN_RE text)
      in \<lparr>emails = fromkeys [] emails, phones = phone_candidates, linkedin = linkedin_urls\<rparr>)"

section \<open>Skills extraction\<close>

definition DEFAULT_SKILLS :: "string list" where
  "DEFAULT_SKILLS =
     [''python'', ''java'', ''c++'', ''c#'', ''javascript'', ''react'', ''node.js'', ''django'',
      ''flask'', ''sql'', ''postgresql'', ''mysql'', ''aws'', ''azure'', ''gcp'', ''docker'',
      ''kubernetes'', ''git'', ''linux'', ''nlp'', ''spaCy'', ''pandas'', ''numpy'',
      ''tensorflow'', ''pytorch'', ''scikit-learn'', ''excel'', ''tableau'', ''power bi'']"

text \<open>
  The spaCy phrase matcher is an optional capability outside the repository: \<open>nlp\<close> is
  \<open>None\<close> when the model is not loaded, and otherwise the function that gives, for the skill
  list and the lower-cased text, the texts of the spans it matches.
\<close>

type_synonym phrase_matcher = "string list \<Rightarrow> string \<Rightarrow> string list"

definition extract_skills :: "phrase_matcher option \<Rightarrow> string \<Rightarrow> string list option \<Rightarrow> string list" where
  "extract_skills nlp text skills_arg =
     (let skills_list = (case skills_arg of None \<Rightarrow> DEFAULT_SKILLS | Some l \<Rightarrow> l);
          text_lower = lower text;
          found = (case nlp of None \<Rightarrow> []
                   | Some matcher \<Rightarrow> map lower (matcher skills_list text_lower));
          found = found @ map lower (filter (\<lambda>s. sublist (lower s) text_lower) skills_list)
      in sort (remdups found))"

section \<open>Education extraction\<close>

record EducationEntry =
  degree :: string
  institution :: string
  year :: string
  raw :: string

definition EDU_KEYWORDS :: "regex list" where
  "EDU_KEYWORDS =
     [lit ''bachelor'', lit ''master'', lit ''b.a.'', lit ''b.sc.'', lit ''m.sc.'', lit ''phd'',
      lit ''b.tech'', lit ''m.tech'', lit ''bs'', lit ''ms'', lit ''mba'', lit ''associate'',
      lit ''high school'', lit ''secondary school'']"

definition YEAR_RE :: regex where
  "YEAR_RE = Seq (Grp 1 (Alt (lit ''19'') (lit ''20''))) (Rep is_digit 2 (Some 2))"

definition COMMA_OR_HYPHEN :: regex where
  "COMMA_OR_HYPHEN = Alt (Chr (CHR '','')) (Chr (CHR ''-''))"

definition has_edu_keyword :: "string \<Rightarrow> bool" where
  "has_edu_keyword low = list_ex (\<lambda>k. re_found False k low) EDU_KEYWORDS"

definition edu_parts :: "string \<Rightarrow> string list" where
  "edu_parts line = map strip (filter (\<lambda>p. strip p \<noteq> []) (re_split False COMMA_OR_HYPHEN line))"

definition edu_year :: "string \<Rightarrow> string" where
  "edu_year line = (case re_search False YEAR_RE line of None \<Rightarrow> [] | Some m \<Rightarrow> fst m)"

text \<open>The body of the loop over the lines of the section.\<close>

definition add_education :: "string \<Rightarrow> EducationEntry list \<Rightarrow> py_error + EducationEntry list" where
  "add_education line results =
     (let low = lower line
      in if has_edu_keyword low
         then
           let year = edu_year line;
               parts = edu_parts line
           in bind_err (if parts \<noteq> [] then index parts 0 else Inr (strip line)) (\<lambda>degree.
              bind_err (if length parts > 1 then index parts 1 else Inr []) (\<lambda>institution.
              Inr (results @ [\<lparr>degree = degree, institution = institution, year = year,
                                raw = strip line\<rparr>])))
         else Inr results)"

definition extract_education :: "string \<Rightarrow> py_error + EducationEntry list" where
  "extract_education section_text = for_loop (splitlines section_text) add_education []"

section \<open>Experience extraction\<close>

record ExperienceEntry =
  title_company :: string
  dates :: "string list list"
  details :: "string list"
  date_tokens :: "string list"

text \<open>An alternation of several patterns, tried in the order written.\<close>

fun alts :: "regex list \<Rightarrow> regex" where
  "alts [] = Cls (\<lambda>c. False)"
| "alts [r] = r"
| "alts (r # q # rs) = Alt r (alts (q # rs))"

text \<open>A month name with its optional ending in a group, as in \<open>Jan(uary)?\<close>.\<close>

definition month :: "string \<Rightarrow> nat \<Rightarrow> string \<Rightarrow> regex" where
  "month short i ending = Seq (lit short) (Opt (Grp i (lit ending)))"

definition date_fill :: "char \<Rightarrow> bool" where
  "date_fill c = (is_word c \<or> c = CHR ''.'' \<or> is_space c \<or> c = CHR '','' \<or> c = CHR ''-'')"

text \<open>
  \<open>DATE_RANGE_RE\<close> has 15 groups, numbered by their opening parenthesis; it is compiled
  with \<open>re.IGNORECASE\<close>, so every use below passes \<open>True\<close> for \<open>ic\<close>.
\<close>

definition DATE_RANGE_RE :: regex where
  "DATE_RANGE_RE =
     Alt (Grp 1 (Seq (Grp 2 (alts
            [month ''Jan'' 3 ''uary'', month ''Feb'' 4 ''ruary'', month ''Mar'' 5 ''ch'',
             month ''Apr'' 6 ''il'', lit ''May'', month ''Jun'' 7 ''e'', month ''Jul'' 8 ''y'',
             month ''Aug'' 9 ''ust'', month ''Sep'' 10 ''tember'', month ''Oct'' 11 ''ober'',
             month ''Nov'' 12 ''ember'', month ''Dec'' 13 ''ember'']))
          (Seq (Rep date_fill 0 None) (Rep is_digit 4 (Some 4)))))
      (Alt (Grp 14 (Seq (Grp 15 (Alt (lit ''19'') (lit ''20''))) (Rep is_digit 2 (Some 2))))
        (lit ''present''))"

text \<open>The pattern \<open>(19|20)\d{2}|present\<close> of the post-processing, searched with \<open>re.IGNORECASE\<close>.\<close>

definition YEAR_OR_PRESENT :: regex where
  "YEAR_OR_PRESENT =
     Alt (Seq (Grp 1 (Alt (lit ''19'') (lit ''20''))) (Rep is_digit 2 (Some 2))) (lit ''present'')"

text \<open>
  The body of the loop over the lines: the state is \<open>entries\<close> and \<open>cur_entry\<close>. An entry gets
  its \<open>date_tokens\<close> key only in the post-processing; until then the field is empty.
\<close>

definition new_entry :: "string \<Rightarrow> string list list \<Rightarrow> ExperienceEntry" where
  "new_entry line ds = \<lparr>title_company = line, dates = ds, details = [], date_tokens = []\<rparr>"

definition finalize :: "ExperienceEntry list \<Rightarrow> ExperienceEntry option \<Rightarrow> ExperienceEntry list" where
  "finalize entries cur_entry = (case cur_entry of None \<Rightarrow> entries | Some e \<Rightarrow> entries @ [e])"

definition experience_line ::
  "ExperienceEntry list \<times> ExperienceEntry option \<Rightarrow> string
     \<Rightarrow> ExperienceEntry list \<times> ExperienceEntry option" where
  "experience_line st line =
     (case st of (entries, cur_entry) \<Rightarrow>
        if re_found True DATE_RANGE_RE line
        then (finalize entries cur_entry,
              Some (new_entry line (re_findall_groups True DATE_RANGE_RE 15 line)))
        else (case cur_entry of
                None \<Rightarrow> (entries, Some (new_entry line []))
              | Some e \<Rightarrow> (entries, Some (e\<lparr>details := details e @ [line]\<rparr>))))"

definition date_tokens_of :: "string \<Rightarrow> string list" where
  "date_tokens_of title =
     concat (map (\<lambda>t. filter (\<lambda>part. re_found True YEAR_OR_PRESENT part) t)
       (re_findall_groups True DATE_RANGE_RE 15 title))"

definition parse_experience :: "string \<Rightarrow> ExperienceEntry list" where
  "parse_experience section_text =
     (let lines = map strip (filter (\<lambda>l. strip l \<noteq> []) (splitlines section_text));
          st = foldl experience_line ([], None) lines;
          entries = finalize (fst st) (snd st)
      in map (\<lambda>e. e\<lparr>date_tokens := date_tokens_of (title_company e)\<rparr>) entries)"

section \<open>Top-level parse\<close>

record ParsedResume =
  contact :: ContactInfo
  summary :: string
  skills :: "string list"
  education :: "EducationEntry list"
  experience :: "ExperienceEntry list"
  raw_sections :: sections

text \<open>
  The loop \<open>for k in sections: if P(k): x = sections[k]; break\<close> over a variable that starts
  as the empty string.
\<close>

definition section_of :: "(string \<Rightarrow> bool) \<Rightarrow> sections \<Rightarrow> py_error + string" where
  "section_of P sections =
     (case find P (map fst sections) of None \<Rightarrow> Inr [] | Some k \<Rightarrow> dict_get sections k)"

text \<open>The text given to \<open>extract_skills\<close>.\<close>

definition skills_text_of :: "string \<Rightarrow> sections \<Rightarrow> py_error + string" where
  "skills_text_of text sections =
     bind_err (section_of (\<lambda>k. sublist ''skill'' k) sections) (\<lambda>skills_text.
     Inr (if skills_text = [] then text else skills_text))"

definition summary_of :: "sections \<Rightarrow> py_error + string" where
  "summary_of sections =
     bind_err (section_of (\<lambda>k. sublist ''summary'' k \<or> sublist ''objective'' k) sections)
       (\<lambda>summary.
     if summary = [] \<and> ''top'' \<in> set (map fst sections)
     then bind_err (dict_get sections ''top'') (\<lambda>top.
          Inr (join [LF] (take 3 (splitlines top))))
     else Inr summary)"

definition parse_resume_from_text :: "phrase_matcher option \<Rightarrow> string \<Rightarrow> py_error + ParsedResume" where
  "parse_resume_from_text nlp raw_text =
     (let text = clean_text raw_text in
      bind_err (split_sections text) (\<lambda>sections.
      let contact = extract_contact text in
      bind_err (skills_text_of text sections) (\<lambda>skills_text.
      let skills = extract_skills nlp skills_text None in
      bind_err (section_of (\<lambda>k. sublist ''educat'' k) sections) (\<lambda>education_section.
      bind_err (if education_section \<noteq> [] then extract_education education_section
                else Inr []) (\<lambda>education.
      bind_err (section_of (\<lambda>k. sublist ''experi'' k) sections) (\<lambda>experience_section.
      let experience = (if experience_section \<noteq> [] then parse_experience experience_section
                        else []) in
      bind_err (summary_of sections) (\<lambda>summary.
      Inr \<lparr>contact = contact, summary = summary, skills = skills, education = education,
           experience = experience, raw_sections = sections\<rparr>)))))))"

section \<open>JSON export\<close>

text \<open>
  The value \<open>parse_resume_from_text\<close> returns is built from dictionaries, lists, strings and,
  in \<open>dates\<close>, the tuples of \<open>findall\<close>: \<open>pyval\<close> is that structure. \<open>json.dumps\<close> writes a
  JSON document and \<open>json.loads\<close> reads one; the model takes the document as its syntax tree
  \<open>json\<close>. Writing sends a list and a tuple both to an array, and reading gives a list for
  an array and a dictionary for an object.
\<close>

datatype pyval =
    PStr string
  | PList "pyval list"
  | PTuple "pyval list"
  | PDict "(string \<times> pyval) list"

datatype json =
    JString string
  | JArray "json list"
  | JObject "(string \<times> json) list"

fun json_dumps :: "pyval \<Rightarrow> json" where
  "json_dumps (PStr s) = JString s"
| "json_dumps (PList xs) = JArray (map json_dumps xs)"
| "json_dumps (PTuple xs) = JArray (map json_dumps xs)"
| "json_dumps (PDict kvs) = JObject (map (\<lambda>kv. (fst kv, json_dumps (snd kv))) kvs)"

fun json_loads :: "json \<Rightarrow> pyval" where
  "json_loads (JString s) = PStr s"
| "json_loads (JArray xs) = PList (map json_loads xs)"
| "json_loads (JObject kvs) = PDict (map (\<lambda>kv. (fst kv, json_loads (snd kv))) kvs)"

text \<open>The Python value of each part of the result.\<close>

definition py_strs :: "string list \<Rightarrow> pyval" where
  "py_strs xs = PList (map PStr xs)"

definition py_contact :: "ContactInfo \<Rightarrow> pyval" where
  "py_contact c =
     PDict [(''emails'', py_strs (emails c)), (''phones'', py_strs (phones c)),
            (''linkedin'', py_strs (linkedin c))]"

definition py_education :: "EducationEntry \<Rightarrow> pyval" where
  "py_education e =
     PDict [(''degree'', PStr (degree e)), (''institution'', PStr (institution e)),
            (''year'', PStr (year e)), (''raw'', PStr (raw e))]"

definition py_experience :: "ExperienceEntry \<Rightarrow> pyval" where
  "py_experience e =
     PDict [(''title_company'', PStr (title_company e)),
            (''dates'', PList (map (\<lambda>t. PTuple (map PStr t)) (dates e))),
            (''details'', py_strs (details e)),
            (''date_tokens'', py_strs (date_tokens e))]"

definition py_resume :: "ParsedResume \<Rightarrow> pyval" where
  "py_resume r =
     PDict [(''contact'', py_contact (contact r)), (''summary'', PStr (summary r)),
            (''skills'', py_strs (skills r)),
            (''education'', PList (map py_education (education r))),
            (''experience'', PList (map py_experience (experience r))),
            (''raw_sections'', PDict (map (\<lambda>kv. (fst kv, PStr (snd kv))) (raw_sections r)))]"

definition to_json :: "ParsedResume \<Rightarrow> json" where
  "to_json parsed = json_dumps (py_resume parsed)"

section \<open>Predicates of the stated properties\<close>

text \<open>
  A text holds a year when four characters in a row are \<open>19\<close> or \<open>20\<close> and two digits; it
  holds the word \<open>present\<close> when its lower case does.
\<close>

fun year_here :: "string \<Rightarrow> bool" where
  "year_here (a # b # c # d # rest) =
     (([a, b] = ''19'' \<or> [a, b] = ''20'') \<and> is_digit c \<and> is_digit d)"
| "year_here _ = False"

definition has_year :: "string \<Rightarrow> bool" where
  "has_year s = list_ex year_here (suffixes s)"

definition has_present :: "string \<Rightarrow> bool" where
  "has_present s = sublist ''present'' (lower s)"

text \<open>The month names that \<open>DATE_RANGE_RE\<close> knows, in lower case.\<close>

definition MONTH_NAMES :: "string list" where
  "MONTH_NAMES =
     [''jan'', ''january'', ''feb'', ''february'', ''mar'', ''march'', ''apr'', ''april'',
      ''may'', ''jun'', ''june'', ''jul'', ''july'', ''aug'', ''august'', ''sep'',
      ''september'', ''oct'', ''october'', ''nov'', ''november'', ''dec'', ''december'']"


text \<open>
  The education entry of a line in the words of the specification: the line is cut at
  every comma and hyphen, the parts are trimmed and the empty ones dropped; the degree is
  the first part, the institution the second if there is one, and the year the first four
  characters in the line that are \<open>19\<close> or \<open>20\<close> and two digits.
\<close>

fun cut_at :: "('a \<Rightarrow> bool) \<Rightarrow> 'a list \<Rightarrow> 'a list \<Rightarrow> 'a list list" where
  "cut_at f cur [] = [cur]"
| "cut_at f cur (c # cs) = (if f c then cur # cut_at f [] cs else cut_at f (cur @ [c]) cs)"

definition comma_or_hyphen :: "char \<Rightarrow> bool" where
  "comma_or_hyphen c = (c = CHR '','' \<or> c = CHR ''-'')"

definition trimmed_parts :: "string \<Rightarrow> string list" where
  "trimmed_parts line =
     map strip (filter (\<lambda>p. strip p \<noteq> []) (cut_at comma_or_hyphen [] line))"

fun first_year :: "string \<Rightarrow> string" where
  "first_year [] = []"
| "first_year (c # cs) = (if year_here (c # cs) then take 4 (c # cs) else first_year cs)"

definition education_of_line :: "string \<Rightarrow> EducationEntry" where
  "education_of_line line =
     (let parts = trimmed_parts line
      in \<lparr>degree = hd parts,
          institution = (if 2 \<le> length parts then parts ! 1 else []),
          year = first_year line,
          raw = strip line\<rparr>)"

text \<open>
  The sections of a text in the words of the specification. A header line is a line whose
  trimmed lower case matches a heading pattern. The header lines cut the lines of the text
  into blocks: the lines before the first header line, then for each header line the lines
  after it up to the next header line. A section is keyed by its header line, trimmed and
  in lower case, and holds the trimmed text of its block; a key met again keeps its place
  and takes the later block; the block before the first header line goes under \<open>top\<close> if
  its trimmed text is not empty. Without a header line the whole text is under \<open>main\<close>.
\<close>

definition header_line :: "string \<Rightarrow> bool" where
  "header_line l = is_header (lower (strip l))"

definition blocks :: "string \<Rightarrow> string list list" where
  "blocks text = cut_at header_line [] (splitlines text)"

definition header_keys :: "string \<Rightarrow> string list" where
  "header_keys text = map (\<lambda>l. lower (strip l)) (filter header_line (splitlines text))"

definition block_text :: "string list \<Rightarrow> string" where
  "block_text b = strip (join [LF] b)"

definition put_section :: "sections \<Rightarrow> string \<times> string list \<Rightarrow> sections" where
  "put_section d kb = AList.update (fst kb) (block_text (snd kb)) d"

definition sections_of :: "string \<Rightarrow> sections" where
  "sections_of text =
     (if header_keys text = [] then [(''main'', text)]
      else
        let secs = foldl put_section [] (zip (header_keys text) (tl (blocks text)));
            top = block_text (hd (blocks text))
        in if top \<noteq> [] then AList.update ''top'' top secs else secs)"

text \<open>
  The text of the first section, in the order of insertion, whose key holds \<open>w\<close>; the empty
  text if no key does.
\<close>

definition first_section :: "string \<Rightarrow> sections \<Rightarrow> string" where
  "first_section w secs =
     (case find (\<lambda>kb. sublist w (fst kb)) secs of None \<Rightarrow> [] | Some kb \<Rightarrow> snd kb)"

text \<open>
  What reading a written value gives back: the same value with every tuple turned into a
  list of the same elements.
\<close>

fun detuple :: "pyval \<Rightarrow> pyval" where
  "detuple (PStr s) = PStr s"
| "detuple (PList xs) = PList (map detuple xs)"
| "detuple (PTuple xs) = PList (map detuple xs)"
| "detuple (PDict kvs) = PDict (map (\<lambda>kv. (fst kv, detuple (snd kv))) kvs)"

section \<open>The character classes on the bits of a character\<close>

text \<open>
  Each class as a formula on the eight bits of the character, proved from its definition
  by going through all characters. These equations are the ones used to compute.
\<close>

lemma code_Char:
  "code (Char b0 b1 b2 b3 b4 b5 b6 b7) =
     of_bool b0 + 2 * of_bool b1 + 4 * of_bool b2 + 8 * of_bool b3 + 16 * of_bool b4
     + 32 * of_bool b5 + 64 * of_bool b6 + 128 * of_bool b7"
  by (simp add: code_def)

lemma is_space_Char [simp, code]:
  "is_space (Char b0 b1 b2 b3 b4 b5 b6 b7) =
     ((if b7 then (\<not> b6 \<and> (if b5 then (\<not> b4 \<and> \<not> b3 \<and> \<not> b2
      \<and> \<not> b1 \<and> \<not> b0) else (\<not> b4 \<and> \<not> b3 \<and> b2 \<and>
      \<not> b1 \<and> b0))) else (\<not> b6 \<and> (if b5 then (\<not> b4 \<and> \<not> b3
      \<and> \<not> b2 \<and> \<not> b1 \<and> \<not> b0) else (if b4 then (b3 \<and> b2)
      else (b3 \<and> (if b2 then \<not> b1 else (b1 \<or> b0))))))))"
  by (cases b0; cases b1; cases b2; cases b3; cases b4; cases b5; cases b6; cases b7;
      simp add: is_space_def code_Char)

lemma is_digit_Char [simp, code]:
  "is_digit (Char b0 b1 b2 b3 b4 b5 b6 b7) =
     ((\<not> b7 \<and> \<not> b6 \<and> b5 \<and> b4 \<and> (\<not> b3 \<or> (\<not> b2
      \<and> \<not> b1))))"
  by (cases b0; cases b1; cases b2; cases b3; cases b4; cases b5; cases b6; cases b7;
      simp add: is_digit_def code_Char)

lemma is_word_Char [simp, code]:
  "is_word (Char b0 b1 b2 b3 b4 b5 b6 b7) =
     ((if b7 then (if b6 then (\<not> b4 \<or> b3 \<or> \<not> b2 \<or> \<not> b1 \<or>
      \<not> b0) else (b5 \<and> (if b4 then (if b3 then (if b2 then (\<not> b1 \<or> \<not>
      b0) else (if b1 then \<not> b0 else b0)) else (if b2 then (\<not> b1 \<and> b0) else
      b1)) else (b3 \<and> \<not> b2 \<and> b1 \<and> \<not> b0)))) else (if b6 then (if b5
      then (if b4 then (\<not> b3 \<or> (\<not> b2 \<and> (\<not> b1 \<or> \<not> b0))) else
      (b3 \<or> b2 \<or> b1 \<or> b0)) else (if b4 then (\<not> b3 \<or> (if b2 then (b1
      \<and> b0) else (\<not> b1 \<or> \<not> b0))) else (b3 \<or> b2 \<or> b1 \<or> b0)))
      else (b5 \<and> b4 \<and> (\<not> b3 \<or> (\<not> b2 \<and> \<not> b1))))))"
  by (cases b0; cases b1; cases b2; cases b3; cases b4; cases b5; cases b6; cases b7;
      simp add: is_word_def is_digit_def code_Char)

lemma is_linebreak_Char [simp, code]:
  "is_linebreak (Char b0 b1 b2 b3 b4 b5 b6 b7) =
     ((if b7 then (\<not> b6 \<and> \<not> b5 \<and> \<not> b4 \<and> \<not> b3 \<and> b2
      \<and> \<not> b1 \<and> b0) else (\<not> b6 \<and> \<not> b5 \<and> (if b4 then (b3
      \<and> b2 \<and> (\<not> b1 \<or> \<not> b0)) else (b3 \<and> (if b2 then \<not> b1
      else b1))))))"
  by (cases b0; cases b1; cases b2; cases b3; cases b4; cases b5; cases b6; cases b7;
      simp add: is_linebreak_def code_Char)

lemma is_ctrl_Char [simp, code]:
  "is_ctrl (Char b0 b1 b2 b3 b4 b5 b6 b7) =
     ((\<not> b7 \<and> \<not> b6 \<and> \<not> b5 \<and> (b4 \<or> \<not> b3 \<or> (if b2
      then (b1 \<or> \<not> b0) else (if b1 then b0 else \<not> b0)))))"
  by (cases b0; cases b1; cases b2; cases b3; cases b4; cases b5; cases b6; cases b7;
      simp add: is_ctrl_def code_Char)

lemma lower_c_Char [simp, code]:
  "lower_c (Char b0 b1 b2 b3 b4 b5 b6 b7) =
     Char b0 b1 b2 b3 b4
       (b5 \<or> (if b7 then (b6 \<and> \<not> b5 \<and> (\<not> b4 \<or> \<not> b2 \<or> \<not>
             b1 \<or> \<not> b0)) else (b6 \<and> \<not> b5 \<and> (if b4 then (\<not> b3
             \<or> (\<not> b2 \<and> (\<not> b1 \<or> \<not> b0))) else (b3 \<or> b2 \<or>
             b1 \<or> b0)))))
       b6 b7"
  by (cases b0; cases b1; cases b2; cases b3; cases b4; cases b5; cases b6; cases b7;
      simp add: lower_c_def code_Char char_of_eq_iff)

section \<open>Substitution of a repeated class\<close>

lemma rep_states_hit:
  "m \<le> k + length (takeWhile f s) \<Longrightarrow>
   \<exists>p' rest. rep_states f m None k (p, s, g) = (p', dropWhile f s, g) # rest"
proof (induction s arbitrary: k p)
  case Nil
  then show ?case by simp
next
  case (Cons c cs)
  show ?case
  proof (cases "f c")
    case True
    with Cons.prems have "m \<le> Suc k + length (takeWhile f cs)" by simp
    from Cons.IH [OF this, of "Some c"] True show ?thesis
      by (auto simp: below_max_def)
  next
    case False
    with Cons.prems show ?thesis by simp
  qed
qed

lemma rep_states_miss:
  "\<not> m \<le> k + length (takeWhile f s) \<Longrightarrow> rep_states f m None k (p, s, g) = []"
proof (induction s arbitrary: k p)
  case Nil
  then show ?case by simp
next
  case (Cons c cs)
  then show ?case by (cases "f c") (auto simp: below_max_def)
qed

lemma scan_rep_nil: "0 < m \<Longrightarrow> re_scan ic (Rep f m None) p [] = []"
  by (simp add: re_scan.simps)

lemma scan_rep_miss:
  "\<not> m \<le> length (takeWhile f (c # cs)) \<Longrightarrow>
   re_scan ic (Rep f m None) p (c # cs) = Inl c # re_scan ic (Rep f m None) (Some c) cs"
  using rep_states_miss [of m 0 f "c # cs" p "[]"]
  by (subst re_scan.simps) simp

lemma scan_rep_hit:
  assumes "0 < m" "m \<le> length (takeWhile f s)"
  shows "\<exists>p'. re_scan ic (Rep f m None) p s =
           Inr (takeWhile f s, []) # re_scan ic (Rep f m None) p' (dropWhile f s)"
proof -
  from assms(2) obtain p' rest where
    r: "rep_states f m None 0 (p, s, []) = (p', dropWhile f s, []) # rest"
    using rep_states_hit [of m 0 f s p "[]"] by auto
  from assms have ne: "takeWhile f s \<noteq> []" by auto
  have len: "length s = length (takeWhile f s) + length (dropWhile f s)"
    by (metis length_append takeWhile_dropWhile_id)
  with ne have lt: "length (dropWhile f s) < length s" by simp
  have tk: "take (length s - length (dropWhile f s)) s = takeWhile f s"
    using len by (metis add_diff_cancel_right' append_eq_conv_conj takeWhile_dropWhile_id)
  show ?thesis
    by (subst re_scan.simps) (auto simp: r lt tk)
qed

lemma subst_nil: "0 < m \<Longrightarrow> subst f m repl p [] = []"
  by (simp add: subst_def scan_rep_nil)

lemma subst_miss:
  "\<not> m \<le> length (takeWhile f (c # cs)) \<Longrightarrow>
   subst f m repl p (c # cs) = c # subst f m repl (Some c) cs"
  by (simp add: subst_def scan_rep_miss)

lemma subst_hit:
  "0 < m \<Longrightarrow> m \<le> length (takeWhile f s) \<Longrightarrow>
   \<exists>p'. subst f m repl p s = repl @ subst f m repl p' (dropWhile f s)"
  using scan_rep_hit [of m f s False p] by (auto simp: subst_def)

lemma re_sub_subst: "re_sub False (Rep f m None) repl s = subst f m repl None s"
  by (simp add: re_sub_def subst_def)

lemma subst_filter: "subst f 1 [] p s = filter (\<lambda>c. \<not> f c) s"
proof (induction s arbitrary: p rule: length_induct)
  case (1 s)
  show ?case
  proof (cases s)
    case Nil
    then show ?thesis by (simp add: subst_nil)
  next
    case (Cons c cs)
    show ?thesis
    proof (cases "f c")
      case True
      then have h: "1 \<le> length (takeWhile f s)" using Cons by simp
      from subst_hit [OF _ h, of "[]" p] obtain p' where
        e: "subst f 1 [] p s = subst f 1 [] p' (dropWhile f s)" by auto
      have "length (dropWhile f s) < length s"
        using Cons True by (simp add: length_dropWhile_le less_Suc_eq_le)
      with 1 have "subst f 1 [] p' (dropWhile f s) = filter (\<lambda>c. \<not> f c) (dropWhile f s)"
        by blast
      also have "\<dots> = filter (\<lambda>c. \<not> f c) (takeWhile f s @ dropWhile f s)"
        by (simp add: filter_empty_conv[THEN iffD2] del: takeWhile_dropWhile_id)
           (metis (mono_tags, lifting) filter_False set_takeWhileD)
      finally show ?thesis using e by simp
    next
      case False
      then have "\<not> 1 \<le> length (takeWhile f (c # cs))" by simp
      from subst_miss [OF this] 1 Cons False show ?thesis by simp
    qed
  qed
qed

lemma subst_induct [consumes 1, case_names Nil Hit Miss]:
  assumes m: "0 < m"
    and nil: "\<And>p. P p []"
    and hit: "\<And>p s p'. s \<noteq> [] \<Longrightarrow> f (hd s) \<Longrightarrow> m \<le> length (takeWhile f s) \<Longrightarrow>
               subst f m repl p s = repl @ subst f m repl p' (dropWhile f s) \<Longrightarrow>
               P p' (dropWhile f s) \<Longrightarrow> P p s"
    and miss: "\<And>p c cs. \<not> m \<le> length (takeWhile f (c # cs)) \<Longrightarrow>
               subst f m repl p (c # cs) = c # subst f m repl (Some c) cs \<Longrightarrow>
               P (Some c) cs \<Longrightarrow> P p (c # cs)"
  shows "P p s"
proof (induction s arbitrary: p rule: length_induct)
  case (1 s)
  show ?case
  proof (cases s)
    case Nil
    then show ?thesis using nil by simp
  next
    case (Cons c cs)
    show ?thesis
    proof (cases "m \<le> length (takeWhile f s)")
      case True
      with m have ne: "takeWhile f s \<noteq> []" by auto
      then have fc: "f (hd s)" using Cons by (auto split: if_splits)
      from subst_hit [OF m True, of repl p] obtain p' where
        e: "subst f m repl p s = repl @ subst f m repl p' (dropWhile f s)" by auto
      have "length (dropWhile f s) < length s"
        using Cons fc by (simp add: length_dropWhile_le less_Suc_eq_le)
      with 1 have "P p' (dropWhile f s)" by blast
      with hit [OF _ fc True e] Cons show ?thesis by simp
    next
      case False
      with Cons have f: "\<not> m \<le> length (takeWhile f (c # cs))" by simp
      from 1 Cons have "P (Some c) cs" by simp
      with miss [OF f subst_miss [OF f]] Cons show ?thesis by simp
    qed
  qed
qed

lemma set_subst:
  assumes m: "0 < m"
  shows "set (subst f m repl p s) \<subseteq> set s \<union> set repl"
  using m
proof (induction p s rule: subst_induct [where f = f and repl = repl])
  case (Nil p)
  then show ?case by (simp add: subst_nil m)
next
  case (Hit p s p')
  then show ?case using set_dropWhileD [of _ f s] by auto
next
  case (Miss p c cs)
  then show ?case by auto
qed

lemma set_subst1: "set (subst f (Suc 0) repl p s) \<subseteq> {c \<in> set s. \<not> f c} \<union> set repl"
proof -
  have m: "0 < Suc 0" by simp
  then show ?thesis
  proof (induction p s rule: subst_induct [where f = f and repl = repl])
    case (Nil p)
    then show ?case by (simp add: subst_nil)
  next
    case (Hit p s p')
    then show ?case using set_dropWhileD [of _ f s] hd_dropWhile [of f s] by auto
  next
    case (Miss p c cs)
    then show ?case by auto
  qed
qed

lemma hd_subst:
  assumes "0 < m" "repl \<noteq> []" "x \<notin> set repl" "subst f m repl p s = x # t"
  shows "\<exists>t'. s = x # t'"
proof (cases s)
  case Nil
  with assms show ?thesis by (simp add: subst_nil)
next
  case (Cons c cs)
  show ?thesis
  proof (cases "m \<le> length (takeWhile f s)")
    case True
    from subst_hit [OF assms(1) True, of repl p] obtain p' where
      "subst f m repl p s = repl @ subst f m repl p' (dropWhile f s)" by auto
    with assms(2,3,4) show ?thesis by (cases repl) auto
  next
    case False
    with Cons subst_miss [of m f c cs repl p] assms(4) show ?thesis by simp
  qed
qed

lemma hd_subst_class:
  assumes "0 < m" "f x" "subst f m repl p s = x # t"
  shows "s \<noteq> [] \<and> f (hd s)"
proof (cases s)
  case Nil
  with assms show ?thesis by (simp add: subst_nil)
next
  case (Cons c cs)
  show ?thesis
  proof (cases "m \<le> length (takeWhile f s)")
    case True
    with assms(1) have "takeWhile f s \<noteq> []" by auto
    with Cons show ?thesis by (auto split: if_splits)
  next
    case False
    with Cons subst_miss [of m f c cs repl p] assms show ?thesis by simp
  qed
qed

lemma sublist2_Cons:
  "sublist [a, b] (x # xs) \<longleftrightarrow> (x = a \<and> xs \<noteq> [] \<and> hd xs = b) \<or> sublist [a, b] xs"
  by (cases xs) (auto simp: sublist_Cons_right)

lemma sublist3_Cons:
  "sublist [a, b, c] (x # xs) \<longleftrightarrow> prefix [a, b, c] (x # xs) \<or> sublist [a, b, c] xs"
  by (simp add: sublist_Cons_right)

lemma not_sublist_dropWhile: "\<not> sublist xs s \<Longrightarrow> \<not> sublist xs (dropWhile f s)"
  by (metis sublist_order.order.trans suffix_dropWhile suffix_imp_sublist)

text \<open>The first substitution of \<open>clean_text\<close>: runs of spaces and tabs.\<close>

lemma blank_fix:
  "TAB \<notin> set s \<Longrightarrow> \<not> sublist [SP, SP] s \<Longrightarrow> subst is_blank (Suc 0) [SP] p s = s"
proof -
  have m: "0 < Suc 0" by simp
  then have "TAB \<notin> set s \<longrightarrow> \<not> sublist [SP, SP] s \<longrightarrow> subst is_blank (Suc 0) [SP] p s = s"
  proof (induction p s rule: subst_induct [where f = is_blank and repl = "[SP]"])
    case (Nil p)
    then show ?case by (simp add: subst_nil)
  next
    case (Hit p s p')
    show ?case
    proof (intro impI)
      assume t: "TAB \<notin> set s" and d: "\<not> sublist [SP, SP] s"
      from Hit(1) obtain c cs where s: "s = c # cs" by (cases s) auto
      with Hit(2) t have c: "c = SP" by (auto simp: is_blank_def)
      have "cs = [] \<or> \<not> is_blank (hd cs)"
        using t d s c by (cases cs) (auto simp: is_blank_def sublist2_Cons)
      then have dw: "dropWhile is_blank s = cs"
        using s c by (cases cs) (auto simp: is_blank_def)
      from t d s have "TAB \<notin> set cs" "\<not> sublist [SP, SP] cs"
        by (auto simp: sublist2_Cons)
      with Hit(5) dw have "subst is_blank (Suc 0) [SP] p' cs = cs" by simp
      with Hit(4) dw s c show "subst is_blank (Suc 0) [SP] p s = s" by simp
    qed
  next
    case (Miss p c cs)
    then show ?case by (auto simp: sublist2_Cons)
  qed
  then show "TAB \<notin> set s \<Longrightarrow> \<not> sublist [SP, SP] s \<Longrightarrow> subst is_blank (Suc 0) [SP] p s = s"
    by simp
qed

lemma blank_normal_tab: "TAB \<notin> set (subst is_blank (Suc 0) [SP] p s)"
  using set_subst1 [of is_blank "[SP]" p s] by (auto simp: is_blank_def)

lemma blank_normal_pair: "\<not> sublist [SP, SP] (subst is_blank (Suc 0) [SP] p s)"
proof -
  have m: "0 < Suc 0" by simp
  then show ?thesis
  proof (induction p s rule: subst_induct [where f = is_blank and repl = "[SP]"])
    case (Nil p)
    then show ?case by (simp add: subst_nil)
  next
    case (Hit p s p')
    have "\<not> (subst is_blank (Suc 0) [SP] p' (dropWhile is_blank s) \<noteq> []
             \<and> hd (subst is_blank (Suc 0) [SP] p' (dropWhile is_blank s)) = SP)"
    proof
      assume a: "subst is_blank (Suc 0) [SP] p' (dropWhile is_blank s) \<noteq> []
             \<and> hd (subst is_blank (Suc 0) [SP] p' (dropWhile is_blank s)) = SP"
      then obtain t where "subst is_blank (Suc 0) [SP] p' (dropWhile is_blank s) = SP # t"
        by (cases "subst is_blank (Suc 0) [SP] p' (dropWhile is_blank s)") auto
      from hd_subst_class [OF m _ this] have
        "dropWhile is_blank s \<noteq> [] \<and> is_blank (hd (dropWhile is_blank s))"
        by (simp add: is_blank_def)
      then show False using hd_dropWhile [of is_blank s] by simp
    qed
    with Hit show ?case by (simp add: sublist2_Cons)
  next
    case (Miss p c cs)
    then have "c \<noteq> SP" by (auto simp: is_blank_def split: if_splits)
    with Miss show ?case by (simp add: sublist2_Cons)
  qed
qed

text \<open>The second substitution of \<open>clean_text\<close>: runs of three or more newlines.\<close>

lemma prefix3_run: "prefix [LF, LF, LF] s \<longleftrightarrow> 3 \<le> length (takeWhile is_lf s)"
proof (cases s)
  case Nil
  then show ?thesis by simp
next
  case (Cons a as)
  show ?thesis
  proof (cases as)
    case Nil
    with Cons show ?thesis by simp
  next
    case (Cons b bs)
    with \<open>s = a # as\<close> show ?thesis by (cases bs) auto
  qed
qed

lemma newline_fix:
  "\<not> sublist [LF, LF, LF] s \<Longrightarrow> subst is_lf 3 [LF, LF] p s = s"
proof -
  have m: "0 < (3::nat)" by simp
  then have "\<not> sublist [LF, LF, LF] s \<longrightarrow> subst is_lf 3 [LF, LF] p s = s"
  proof (induction p s rule: subst_induct [where f = is_lf and repl = "[LF, LF]"])
    case (Nil p)
    then show ?case by (simp add: subst_nil)
  next
    case (Hit p s p')
    from Hit(3) have "prefix [LF, LF, LF] s" by (simp add: prefix3_run)
    then show ?case by (auto dest: prefix_imp_sublist)
  next
    case (Miss p c cs)
    then show ?case by (auto simp: sublist3_Cons)
  qed
  then show "\<not> sublist [LF, LF, LF] s \<Longrightarrow> subst is_lf 3 [LF, LF] p s = s" by simp
qed

lemma newline_run:
  "length (takeWhile is_lf (subst is_lf 3 [LF, LF] p s)) \<le> min 2 (length (takeWhile is_lf s))"
proof -
  have m: "0 < (3::nat)" by simp
  then show ?thesis
  proof (induction p s rule: subst_induct [where f = is_lf and repl = "[LF, LF]"])
    case (Nil p)
    then show ?case by (simp add: subst_nil)
  next
    case (Hit p s p')
    have "takeWhile is_lf (dropWhile is_lf s) = []"
      by (metis (mono_tags, lifting) hd_dropWhile takeWhile_eq_Nil_iff)
    with Hit(5) have "takeWhile is_lf (subst is_lf 3 [LF, LF] p' (dropWhile is_lf s)) = []"
      by simp
    with Hit(3,4) show ?case by simp
  next
    case (Miss p c cs)
    then show ?case by (auto split: if_splits)
  qed
qed

lemma newline_normal: "\<not> sublist [LF, LF, LF] (subst is_lf 3 [LF, LF] p s)"
proof -
  have np: "\<not> prefix [LF, LF, LF] (subst is_lf 3 [LF, LF] p s)" for p s
    using newline_run [of p s] by (simp add: prefix3_run)
  have m: "0 < (3::nat)" by simp
  then show ?thesis
  proof (induction p s rule: subst_induct [where f = is_lf and repl = "[LF, LF]"])
    case (Nil p)
    then show ?case by (simp add: subst_nil)
  next
    case (Hit p s p')
    have "takeWhile is_lf (dropWhile is_lf s) = []"
      by (metis (mono_tags, lifting) hd_dropWhile takeWhile_eq_Nil_iff)
    with newline_run [of p' "dropWhile is_lf s"]
    have z: "takeWhile is_lf (subst is_lf 3 [LF, LF] p' (dropWhile is_lf s)) = []" by simp
    have "\<not> prefix [LF, LF, LF] (LF # subst is_lf 3 [LF, LF] p' (dropWhile is_lf s))"
      using z by (cases "subst is_lf 3 [LF, LF] p' (dropWhile is_lf s)") (auto split: if_splits)
    with Hit(4,5) np [of p s] show ?case by (simp add: sublist3_Cons del: prefix_code)
  next
    case (Miss p c cs)
    with np [of p "c # cs"] show ?case by (simp add: sublist3_Cons del: prefix_code)
  qed
qed

lemma newline_keeps_pairs:
  "\<not> sublist [SP, SP] s \<Longrightarrow> \<not> sublist [SP, SP] (subst is_lf 3 [LF, LF] p s)"
proof -
  have m: "0 < (3::nat)" by simp
  then have "\<not> sublist [SP, SP] s \<longrightarrow> \<not> sublist [SP, SP] (subst is_lf 3 [LF, LF] p s)"
  proof (induction p s rule: subst_induct [where f = is_lf and repl = "[LF, LF]"])
    case (Nil p)
    then show ?case by (simp add: subst_nil)
  next
    case (Hit p s p')
    then show ?case using not_sublist_dropWhile [of "[SP, SP]" s is_lf]
      by (auto simp: sublist2_Cons)
  next
    case (Miss p c cs)
    show ?case
    proof (intro impI)
      assume d: "\<not> sublist [SP, SP] (c # cs)"
      with Miss(3) have ih: "\<not> sublist [SP, SP] (subst is_lf 3 [LF, LF] (Some c) cs)"
        by (simp add: sublist2_Cons)
      have "\<not> (c = SP \<and> subst is_lf 3 [LF, LF] (Some c) cs \<noteq> []
               \<and> hd (subst is_lf 3 [LF, LF] (Some c) cs) = SP)"
      proof
        assume a: "c = SP \<and> subst is_lf 3 [LF, LF] (Some c) cs \<noteq> []
               \<and> hd (subst is_lf 3 [LF, LF] (Some c) cs) = SP"
        then obtain t where "subst is_lf 3 [LF, LF] (Some c) cs = SP # t"
          by (cases "subst is_lf 3 [LF, LF] (Some c) cs") auto
        from hd_subst [OF m _ _ this] obtain t' where "cs = SP # t'" by auto
        with a d show False by (simp add: sublist2_Cons)
      qed
      with ih Miss(2) show "\<not> sublist [SP, SP] (subst is_lf 3 [LF, LF] p (c # cs))"
        by (auto simp: sublist2_Cons)
    qed
  qed
  then show "\<not> sublist [SP, SP] s \<Longrightarrow> \<not> sublist [SP, SP] (subst is_lf 3 [LF, LF] p s)"
    by simp
qed

text \<open>\<open>strip\<close> gives a contiguous part of the text, and is idempotent.\<close>

lemma sublist_strip: "sublist (strip s) s"
proof -
  have "prefix (rev (dropWhile is_space (rev t))) t" for t
    by (metis suffix_dropWhile suffix_to_prefix rev_rev_ident)
  then have "sublist (strip s) (lstrip s)"
    by (simp add: strip_def rstrip_def prefix_imp_sublist)
  moreover have "sublist (lstrip s) s"
    by (simp add: lstrip_def suffix_dropWhile suffix_imp_sublist)
  ultimately show ?thesis by (rule sublist_order.order.trans)
qed

lemma strip_ends:
  "strip s = [] \<or> (\<not> is_space (hd (strip s)) \<and> \<not> is_space (last (strip s)))"
proof (cases "strip s = []")
  case True
  then show ?thesis by simp
next
  case False
  let ?u = "dropWhile is_space s"
  let ?v = "dropWhile is_space (rev ?u)"
  from False have v: "?v \<noteq> []" by (simp add: strip_def rstrip_def lstrip_def)
  then have u: "?u \<noteq> []" by (metis dropWhile.simps(1) rev.simps(1))
  have l: "\<not> is_space (last (strip s))"
    using hd_dropWhile [OF v] v by (simp add: strip_def rstrip_def lstrip_def last_rev)
  have "prefix (rev ?v) ?u"
    by (metis suffix_dropWhile suffix_to_prefix rev_rev_ident)
  with v have "hd (rev ?v) = hd ?u"
    by (metis hd_append2 prefix_def rev_is_Nil_conv)
  with hd_dropWhile [OF u] have "\<not> is_space (hd (strip s))"
    by (simp add: strip_def rstrip_def lstrip_def)
  with l show ?thesis by simp
qed

lemma strip_fix: "t = [] \<or> (\<not> is_space (hd t) \<and> \<not> is_space (last t)) \<Longrightarrow> strip t = t"
proof (cases "t = []")
  case True
  then show ?thesis by (simp add: strip_def rstrip_def lstrip_def)
next
  case False
  assume "t = [] \<or> (\<not> is_space (hd t) \<and> \<not> is_space (last t))"
  with False have h: "\<not> is_space (hd t)" and l: "\<not> is_space (last t)" by auto
  from h False have "dropWhile is_space t = t" by (simp add: dropWhile_eq_self_iff)
  moreover from l False have "dropWhile is_space (rev t) = rev t"
    by (simp add: dropWhile_eq_self_iff hd_rev)
  ultimately show ?thesis by (simp add: strip_def rstrip_def lstrip_def)
qed

lemma strip_strip: "strip (strip s) = strip s"
  using strip_ends [of s] by (rule strip_fix)

section \<open>What a match of the matcher consumed\<close>

lemma rep_states_sound:
  "(p', s', g') \<in> set (rep_states f m n k (p, s, g)) \<Longrightarrow>
   \<exists>t. s = t @ s' \<and> list_all f t \<and> m \<le> k + length t \<and> g' = g"
proof (induction s arbitrary: k p)
  case Nil
  then show ?case by (auto split: if_splits)
next
  case (Cons c cs)
  from Cons.prems consider
    (more) "f c" "(p', s', g') \<in> set (rep_states f m n (Suc k) (Some c, cs, g))"
    | (stop) "m \<le> k" "s' = c # cs" "g' = g"
    by (auto split: if_splits)
  then show ?case
  proof cases
    case more
    from Cons.IH [OF more(2)] obtain t where
      "cs = t @ s'" "list_all f t" "m \<le> Suc k + length t" "g' = g" by auto
    with more(1) show ?thesis by (intro exI [of _ "c # t"]) simp
  next
    case stop
    then show ?thesis by (intro exI [of _ "[]"]) simp
  qed
qed

lemma rep_states_bound:
  "(p', s', g') \<in> set (rep_states f m (Some n) k (p, s, g)) \<Longrightarrow>
   k \<le> n \<Longrightarrow> k + (length s - length s') \<le> n"
proof (induction s arbitrary: k p)
  case Nil
  then show ?case by (auto split: if_splits)
next
  case (Cons c cs)
  from Cons.prems(1) consider
    (more) "f c" "k < n" "(p', s', g') \<in> set (rep_states f m (Some n) (Suc k) (Some c, cs, g))"
    | (stop) "s' = c # cs"
    by (auto split: if_splits simp: below_max_def)
  then show ?case
  proof cases
    case more
    from rep_states_sound [OF more(3)] have "length s' \<le> length cs" by auto
    with Cons.IH [OF more(3)] more(2) show ?thesis by simp
  next
    case stop
    with Cons.prems(2) show ?thesis by simp
  qed
qed

lemma lit_sound:
  "(p', s', g') \<in> set (rmatch ic (lit w) (p, s, g)) \<Longrightarrow>
   \<exists>t. s = t @ s' \<and> list_all2 (chr_eq ic) w t \<and> g' = g"
proof (induction w arbitrary: p s rule: lit.induct)
  case 1
  then show ?case by simp
next
  case (2 c)
  then show ?case by (cases s) (auto split: if_splits)
next
  case (3 c d cs)
  from "3.prems" obtain x xs where s: "s = x # xs" and c: "chr_eq ic c x"
    and r: "(p', s', g') \<in> set (rmatch ic (lit (d # cs)) (Some x, xs, g))"
    by (cases s) (auto split: if_splits)
  from "3.IH" [OF r] obtain t where "xs = t @ s'" "list_all2 (chr_eq ic) (d # cs) t" "g' = g"
    by auto
  with s c show ?case by (intro exI [of _ "x # t"]) simp
qed

lemma search_from_sound:
  "re_search_from ic r p s = Some m \<Longrightarrow> \<exists>pre u q. s = pre @ u \<and> rmatch ic r (q, u, []) \<noteq> []"
proof (induction s arbitrary: p)
  case Nil
  then have "rmatch ic r (p, [], []) \<noteq> []" by (auto split: list.splits)
  then show ?case by auto
next
  case (Cons c cs)
  show ?case
  proof (cases "rmatch ic r (p, c # cs, [])")
    case Nil
    with Cons.prems have "re_search_from ic r (Some c) cs = Some m" by simp
    from Cons.IH [OF this] obtain pre u q where
      "cs = pre @ u" "rmatch ic r (q, u, []) \<noteq> []" by blast
    then have "c # cs = (c # pre) @ u \<and> rmatch ic r (q, u, []) \<noteq> []" by simp
    then show ?thesis by blast
  next
    case (Cons st rest)
    then have "c # cs = [] @ (c # cs) \<and> rmatch ic r (p, c # cs, []) \<noteq> []" by simp
    then show ?thesis by blast
  qed
qed

lemma lower_c_digit: "is_digit c \<Longrightarrow> lower_c x = c \<Longrightarrow> x = c"
  by (cases x; cases c) auto

lemma lower_c_of_digit: "is_digit c \<Longrightarrow> lower_c c = c"
  by (cases c) auto

lemma found_lit:
  assumes "re_found False (lit w) low"
  shows "sublist w low"
proof -
  from assms obtain m where "re_search_from False (lit w) None low = Some m"
    by (auto simp: re_found_def re_search_def)
  from search_from_sound [OF this] obtain pre u q where
    u: "low = pre @ u" "rmatch False (lit w) (q, u, []) \<noteq> []" by blast
  from u(2) have "hd (rmatch False (lit w) (q, u, [])) \<in> set (rmatch False (lit w) (q, u, []))"
    by (rule hd_in_set)
  then obtain p' s' g' where "(p', s', g') \<in> set (rmatch False (lit w) (q, u, []))"
    by (metis prod_cases3)
  from lit_sound [OF this] obtain t where t: "u = t @ s'" "list_all2 (chr_eq False) w t" by auto
  from t(2) have "t = w"
    by (induction w t rule: list_all2_induct) (auto simp: chr_eq_def)
  with u(1) t(1) show ?thesis by (auto simp: sublist_def)
qed

lemma in_dropWhile: "c \<in> set p \<Longrightarrow> \<not> P c \<Longrightarrow> c \<in> set (dropWhile P p)"
  by (induction p) auto

lemma strip_nonempty:
  assumes "c \<in> set p" "\<not> is_space c"
  shows "strip p \<noteq> []"
proof -
  from assms have "c \<in> set (rev (dropWhile is_space p))" by (simp add: in_dropWhile)
  then have "c \<in> set (dropWhile is_space (rev (dropWhile is_space p)))"
    using assms(2) by (rule in_dropWhile)
  then have "dropWhile is_space (rev (dropWhile is_space p)) \<noteq> []"
    by (metis empty_iff list.set(1))
  then show ?thesis by (simp only: strip_def rstrip_def lstrip_def rev_is_Nil_conv not_False_eq_True)
qed

lemma lower_c_space: "is_space c \<Longrightarrow> lower_c c = c"
  by (cases c) auto




section \<open>The section splitter and the blocks of a text\<close>

lemma header_lines_shift:
  "header_lines (Suc i) ls = map (\<lambda>h. (Suc (fst h), snd h)) (header_lines i ls)"
  by (induction ls arbitrary: i) (simp_all add: Let_def)

lemma header_lines_keys:
  "map snd (header_lines i ls) = map (\<lambda>l. lower (strip l)) (filter header_line ls)"
  by (induction ls arbitrary: i) (simp_all add: Let_def header_line_def)

lemma length_header_lines: "length (header_lines i ls) = length (filter header_line ls)"
  using header_lines_keys [of i ls] by (metis length_map)

lemma length_cut_at: "length (cut_at f cur ls) = Suc (length (filter f ls))"
  by (induction ls arbitrary: cur) simp_all

lemma concat_cut_at: "concat (cut_at f cur ls) = cur @ filter (\<lambda>x. \<not> f x) ls"
  by (induction ls arbitrary: cur) simp_all

lemma cut_at_first:
  "cut_at f cur ls ! 0 =
     cur @ take (case header_lines 0 ls of [] \<Rightarrow> length ls | h # _ \<Rightarrow> fst h) ls"
  if "f = header_line"
  unfolding that
proof (induction ls arbitrary: cur)
  case Nil
  then show ?case by simp
next
  case (Cons l ls)
  show ?case
  proof (cases "header_line l")
    case True
    then show ?thesis by (simp add: Let_def header_line_def)
  next
    case False
    then have "header_lines 0 (l # ls) = header_lines (Suc 0) ls"
      by (simp add: Let_def header_line_def)
    with False Cons [of "cur @ [l]"] show ?thesis
      by (simp add: header_lines_shift split: list.splits)
  qed
qed

lemma slice_Cons_Suc: "slice (l # ls) (Suc a) (Suc b) = slice ls a b"
  by (simp add: slice_def)

lemma header_lines_pos:
  "idx < length (header_lines 0 ls) \<Longrightarrow>
   fst (header_lines 0 ls ! idx) < length ls
   \<and> lower (strip (ls ! fst (header_lines 0 ls ! idx))) = snd (header_lines 0 ls ! idx)"
proof (induction ls arbitrary: idx)
  case Nil
  then show ?case by simp
next
  case (Cons l ls)
  show ?case
  proof (cases "header_line l")
    case True
    then have h: "header_lines 0 (l # ls) = (0, lower (strip l)) # header_lines (Suc 0) ls"
      by (simp add: Let_def header_line_def)
    show ?thesis
    proof (cases idx)
      case 0
      with h show ?thesis by simp
    next
      case (Suc j)
      with Cons.prems h have "j < length (header_lines 0 ls)"
        by (simp add: header_lines_shift)
      from Cons.IH [OF this] Suc h this show ?thesis by (simp add: header_lines_shift)
    qed
  next
    case False
    then have h: "header_lines 0 (l # ls) = header_lines (Suc 0) ls"
      by (simp add: Let_def header_line_def)
    with Cons.prems have "idx < length (header_lines 0 ls)" by (simp add: header_lines_shift)
    from Cons.IH [OF this] h this show ?thesis by (simp add: header_lines_shift)
  qed
qed

lemma cut_at_block:
  "idx < length (header_lines 0 ls) \<Longrightarrow>
   cut_at header_line cur ls ! Suc idx =
     slice ls (fst (header_lines 0 ls ! idx) + 1)
       (if idx + 1 < length (header_lines 0 ls) then fst (header_lines 0 ls ! (idx + 1))
        else length ls)"
proof (induction ls arbitrary: cur idx)
  case Nil
  then show ?case by simp
next
  case (Cons l ls)
  show ?case
  proof (cases "header_line l")
    case True
    then have h: "header_lines 0 (l # ls) = (0, lower (strip l)) # header_lines (Suc 0) ls"
      by (simp add: Let_def header_line_def)
    show ?thesis
    proof (cases idx)
      case 0
      have "cut_at header_line [] ls ! 0 =
          take (case header_lines 0 ls of [] \<Rightarrow> length ls | h # _ \<Rightarrow> fst h) ls"
        using cut_at_first [of header_line "[]" ls] by simp
      with 0 True h show ?thesis
        by (cases "header_lines 0 ls") (simp_all add: header_lines_shift slice_def)
    next
      case (Suc j)
      with Cons.prems h have j: "j < length (header_lines 0 ls)"
        by (simp add: header_lines_shift)
      from Cons.IH [OF j, of "[]"] Suc h True j show ?thesis
        by (simp add: header_lines_shift slice_Cons_Suc)
    qed
  next
    case False
    then have h: "header_lines 0 (l # ls) = header_lines (Suc 0) ls"
      by (simp add: Let_def header_line_def)
    with Cons.prems have j: "idx < length (header_lines 0 ls)"
      by (simp add: header_lines_shift)
    from Cons.IH [OF j, of "cur @ [l]"] h False j show ?thesis
      by (simp add: header_lines_shift slice_Cons_Suc)
  qed
qed

lemma add_section_step:
  assumes "idx < length (header_lines 0 ls)"
  shows "add_section ls (header_lines 0 ls) (idx, header_lines 0 ls ! idx) secs =
     Inr (put_section secs
            (map (\<lambda>l. lower (strip l)) (filter header_line ls) ! idx,
             cut_at header_line [] ls ! Suc idx))"
proof -
  obtain line_no norm where h: "header_lines 0 ls ! idx = (line_no, norm)"
    by (cases "header_lines 0 ls ! idx")
  from header_lines_pos [OF assms] h have
    p: "line_no < length ls" "lower (strip (ls ! line_no)) = norm" by simp_all
  from assms h have k: "map (\<lambda>l. lower (strip l)) (filter header_line ls) ! idx = norm"
    by (metis header_lines_keys nth_map snd_conv)
  from cut_at_block [OF assms, of "[]"] h have
    b: "cut_at header_line [] ls ! Suc idx =
          slice ls (line_no + 1)
            (if idx + 1 < length (header_lines 0 ls) then fst (header_lines 0 ls ! (idx + 1))
             else length ls)" by simp
  show ?thesis
    unfolding k b
    by (simp add: add_section_def h p bind_err_def index_def put_section_def block_text_def
        Let_def)
qed

lemma for_loop_enumerate:
  assumes "\<And>i st. i < length xs \<Longrightarrow> body (i, xs ! i) st = Inr (g st i)"
  shows "for_loop (enumerate_list xs) body acc = Inr (foldl g acc [0..<length xs])"
  using assms
proof (induction xs arbitrary: acc rule: rev_induct)
  case Nil
  then show ?case by (simp add: enumerate_list_def)
next
  case (snoc x xs)
  have e: "enumerate_list (xs @ [x]) = enumerate_list xs @ [(length xs, x)]"
    by (simp add: enumerate_list_def)
  have l: "for_loop (as @ bs) body st = bind_err (for_loop as body st) (for_loop bs body)"
    for as bs st
    by (induction as arbitrary: st) (auto simp: bind_err_def split: sum.splits)
  have "for_loop (enumerate_list xs) body acc = Inr (foldl g acc [0..<length xs])"
  proof (rule snoc.IH)
    fix i st assume "i < length xs"
    with snoc.prems [of i st] show "body (i, xs ! i) st = Inr (g st i)"
      by (simp add: nth_append)
  qed
  moreover have "body (length xs, x) st = Inr (g st (length xs))" for st
    using snoc.prems [of "length xs" st] by simp
  ultimately show ?case by (simp add: e l bind_err_def)
qed

lemma split_sections_eq: "split_sections text = Inr (sections_of text)"
proof -
  let ?ls = "splitlines text"
  let ?hs = "header_lines 0 ?ls"
  let ?keys = "map (\<lambda>l. lower (strip l)) (filter header_line ?ls)"
  let ?bl = "cut_at header_line [] ?ls"
  have n: "length ?hs = length ?keys" by (simp add: length_header_lines)
  show ?thesis
  proof (cases "?hs = []")
    case True
    with n have "?keys = []" by simp
    with True show ?thesis
      by (simp add: split_sections_def sections_of_def header_keys_def Let_def)
  next
    case False
    with n have kn: "?keys \<noteq> []" by auto
    have loop: "for_loop (enumerate_list ?hs) (add_section ?ls ?hs) [] =
        Inr (foldl (\<lambda>st i. put_section st (?keys ! i, ?bl ! Suc i)) [] [0..<length ?hs])"
      by (rule for_loop_enumerate) (rule add_section_step)
    have lc: "length ?bl = Suc (length (filter header_line ?ls))" by (simp add: length_cut_at)
    have m: "map (\<lambda>i. (?keys ! i, ?bl ! Suc i)) [0..<length ?hs] = zip ?keys (tl ?bl)"
      by (rule nth_equalityI) (simp_all add: n lc nth_tl)
    have z: "foldl (\<lambda>st i. put_section st (?keys ! i, ?bl ! Suc i)) [] [0..<length ?hs]
        = foldl put_section [] (zip ?keys (tl ?bl))"
      by (simp only: m [symmetric] foldl_map)
    from False obtain h hs' where hh: "?hs = h # hs'" by (cases ?hs) auto
    have ne: "?bl \<noteq> []" using lc by auto
    have first: "slice ?ls 0 (fst h) = hd ?bl"
      using cut_at_first [of header_line "[]" ?ls] hh ne
      by (simp add: slice_def hd_conv_nth)
    have idx: "index ?hs 0 = Inr h" using hh by (simp add: index_def)
    have "split_sections text =
        Inr (if strip (join [LF] (slice ?ls 0 (fst h))) \<noteq> []
             then AList.update ''top'' (strip (join [LF] (slice ?ls 0 (fst h))))
                    (foldl put_section [] (zip ?keys (tl ?bl)))
             else foldl put_section [] (zip ?keys (tl ?bl)))"
      using False by (simp add: split_sections_def Let_def loop z idx bind_err_def)
    then show ?thesis
      using kn by (simp add: sections_of_def header_keys_def blocks_def Let_def first block_text_def)
  qed
qed

lemma cut_at_hd: "hd (cut_at f cur ls) = cur @ takeWhile (\<lambda>x. \<not> f x) ls"
  by (induction ls arbitrary: cur) simp_all

lemma hd_blocks: "hd (blocks text) = takeWhile (\<lambda>l. \<not> header_line l) (splitlines text)"
  by (simp add: blocks_def cut_at_hd)

lemma keys_put_sections:
  "fst ` set (foldl put_section d kbs) = fst ` set d \<union> fst ` set kbs"
  by (induction kbs arbitrary: d) (auto simp: put_section_def dom_update)

lemma length_blocks: "length (blocks text) = Suc (length (header_keys text))"
  by (simp add: blocks_def header_keys_def length_cut_at)

lemma keys_zip_blocks: "fst ` set (zip (header_keys text) (tl (blocks text))) = set (header_keys text)"
proof -
  have "length (tl (blocks text)) = length (header_keys text)" by (simp add: length_blocks)
  then have "map fst (zip (header_keys text) (tl (blocks text))) = header_keys text"
    by (simp add: map_fst_zip)
  then show ?thesis by (metis set_map)
qed

lemma top_no_header: "''top'' \<notin> set (header_keys text)"
proof -
  have "\<not> is_header ''top''" by code_simp
  then show ?thesis by (auto simp: header_keys_def header_line_def)
qed

lemma header_keys_empty: "header_keys text = [] \<longleftrightarrow> (\<forall>l\<in>set (splitlines text). \<not> header_line l)"
  by (simp add: header_keys_def filter_empty_conv)

lemma set_update_subset: "set (AList.update k v al) \<subseteq> insert (k, v) (set al)"
  by (induction al) auto

lemma values_put_sections:
  "(k, v) \<in> set (foldl put_section d kbs) \<Longrightarrow>
   (k, v) \<in> set d \<or> (\<exists>i<length kbs. fst (kbs ! i) = k \<and> v = block_text (snd (kbs ! i)))"
proof (induction kbs arbitrary: d rule: rev_induct)
  case Nil
  then show ?case by simp
next
  case (snoc kb kbs)
  from snoc.prems have "(k, v) \<in> set (put_section (foldl put_section d kbs) kb)" by simp
  then have "(k, v) \<in> set (AList.update (fst kb) (block_text (snd kb)) (foldl put_section d kbs))"
    by (simp only: put_section_def [of "foldl put_section d kbs" kb])
  with set_update_subset have
    "(k, v) = (fst kb, block_text (snd kb)) \<or> (k, v) \<in> set (foldl put_section d kbs)"
    by fastforce
  then show ?case
  proof
    assume "(k, v) = (fst kb, block_text (snd kb))"
    then have "fst ((kbs @ [kb]) ! length kbs) = k \<and> v = block_text (snd ((kbs @ [kb]) ! length kbs))"
      by simp
    then show ?thesis by (metis length_append_singleton lessI)
  next
    assume "(k, v) \<in> set (foldl put_section d kbs)"
    from snoc.IH [OF this] show ?thesis
      by (auto simp: nth_append intro: less_SucI)
  qed
qed

lemma distinct_put_sections:
  "distinct (map fst d) \<Longrightarrow> distinct (map fst (foldl put_section d kbs))"
  by (induction kbs arbitrary: d) (simp_all add: put_section_def distinct_update)

lemma distinct_sections_of: "distinct (map fst (sections_of text))"
  by (simp add: sections_of_def Let_def distinct_put_sections distinct_update)

lemma section_block:
  assumes k: "header_keys text \<noteq> []" and m: "kb \<in> set (sections_of text)"
  shows "\<exists>i<length (blocks text). (''top'' # header_keys text) ! i = fst kb
           \<and> snd kb = block_text (blocks text ! i)"
proof -
  let ?kbs = "zip (header_keys text) (tl (blocks text))"
  let ?secs = "foldl put_section [] ?kbs"
  let ?top = "block_text (hd (blocks text))"
  obtain key v where kb: "kb = (key, v)" by (cases kb)
  have lb: "length (blocks text) = Suc (length (header_keys text))" by (rule length_blocks)
  then have ne: "blocks text \<noteq> []" by auto
  from m k have "kb \<in> set (if ?top \<noteq> [] then AList.update ''top'' ?top ?secs else ?secs)"
    by (simp add: sections_of_def Let_def)
  then have "kb = (''top'', ?top) \<or> kb \<in> set ?secs"
    using set_update_subset [of "''top''" ?top ?secs] by (auto split: if_splits)
  then show ?thesis
  proof
    assume "kb = (''top'', ?top)"
    with ne lb show ?thesis by (intro exI [of _ 0]) (simp add: hd_conv_nth)
  next
    assume "kb \<in> set ?secs"
    with kb values_put_sections [of key v "[]" ?kbs] obtain i where
      i: "i < length ?kbs" "fst (?kbs ! i) = key" "v = block_text (snd (?kbs ! i))" by auto
    from i(1) lb have il: "i < length (header_keys text)" by simp
    with lb i have "(''top'' # header_keys text) ! Suc i = key"
      "v = block_text (blocks text ! Suc i)" by (simp_all add: nth_tl)
    with il lb kb show ?thesis by (intro exI [of _ "Suc i"]) simp
  qed
qed

section \<open>The normal form of a cleaned text\<close>

lemma subst_filter_Suc: "subst f (Suc 0) [] p s = filter (\<lambda>c. \<not> f c) s"
  using subst_filter [of f p s] by simp

lemma clean_text_subst:
  "clean_text x =
     strip (subst is_ctrl (Suc 0) [] None (subst is_lf 3 [LF, LF] None
       (subst is_blank (Suc 0) [SP] None (map (\<lambda>c. if c = CR then LF else c) x))))"
  by (simp add: clean_text_def re_sub_subst)

lemma clean_text_fix:
  assumes cr: "CR \<notin> set y" and tab: "TAB \<notin> set y" and ctrl: "\<forall>c\<in>set y. \<not> is_ctrl c"
    and sp: "\<not> sublist [SP, SP] y" and lf: "\<not> sublist [LF, LF, LF] y"
    and st: "strip y = y"
  shows "clean_text y = y"
proof -
  from cr have a: "map (\<lambda>c. if c = CR then LF else c) y = y"
    by (induction y) auto
  from ctrl have d: "filter (\<lambda>c. \<not> is_ctrl c) y = y" by (induction y) auto
  show ?thesis
    by (simp add: clean_text_subst a blank_fix [OF tab sp] newline_fix [OF lf] subst_filter_Suc d st)
qed

lemma clean_text_normal:
  assumes ctrl: "\<forall>c\<in>set x. \<not> is_ctrl c"
  shows "CR \<notin> set (clean_text x) \<and> TAB \<notin> set (clean_text x)
     \<and> (\<forall>c\<in>set (clean_text x). \<not> is_ctrl c)
     \<and> \<not> sublist [SP, SP] (clean_text x) \<and> \<not> sublist [LF, LF, LF] (clean_text x)"
proof -
  let ?a = "map (\<lambda>c. if c = CR then LF else c) x"
  let ?b = "subst is_blank (Suc 0) [SP] None ?a"
  let ?c = "subst is_lf 3 [LF, LF] None ?b"
  have sa: "set ?a \<subseteq> (set x - {CR}) \<union> {LF}" by auto
  have sb: "set ?b \<subseteq> set ?a \<union> {SP}" using set_subst [of "Suc 0" is_blank "[SP]" None ?a] by simp
  have sc: "set ?c \<subseteq> set ?b \<union> {LF}" using set_subst [of 3 is_lf "[LF, LF]" None ?b] by auto
  have nl: "\<not> is_ctrl LF" and ns: "\<not> is_ctrl SP" by simp_all
  from sa sb sc ctrl nl ns have cc: "\<forall>c\<in>set ?c. \<not> is_ctrl c" by blast
  from sa sb sc have cr: "CR \<notin> set ?c" by auto
  have "TAB \<notin> set ?b" by (rule blank_normal_tab)
  with sc have tab: "TAB \<notin> set ?c" by auto
  have sp: "\<not> sublist [SP, SP] ?c" by (rule newline_keeps_pairs) (rule blank_normal_pair)
  have lf: "\<not> sublist [LF, LF, LF] ?c" by (rule newline_normal)
  from cc have d: "subst is_ctrl (Suc 0) [] None ?c = ?c"
    by (simp add: subst_filter_Suc filter_id_conv)
  then have e: "clean_text x = strip ?c" by (simp add: clean_text_subst)
  have sub: "sublist (clean_text x) ?c" unfolding e by (rule sublist_strip)
  then have ss: "set (clean_text x) \<subseteq> set ?c" by (rule set_mono_sublist)
  from sub sp have "\<not> sublist [SP, SP] (clean_text x)"
    using sublist_order.order.trans by blast
  moreover from sub lf have "\<not> sublist [LF, LF, LF] (clean_text x)"
    using sublist_order.order.trans by blast
  ultimately show ?thesis using ss cc cr tab by blast
qed

section \<open>The education extractor line by line\<close>

lemma scan_comma_or_hyphen:
  "re_scan False COMMA_OR_HYPHEN p (c # cs) =
     (if comma_or_hyphen c then Inr ([c], []) else Inl c) # re_scan False COMMA_OR_HYPHEN (Some c) cs"
  by (subst re_scan.simps) (auto simp: COMMA_OR_HYPHEN_def comma_or_hyphen_def chr_eq_def)

lemma scan_comma_or_hyphen_nil: "re_scan False COMMA_OR_HYPHEN p [] = []"
  by (subst re_scan.simps) (simp add: COMMA_OR_HYPHEN_def)

lemma pieces_cut_at:
  "pieces cur (re_scan False COMMA_OR_HYPHEN p s) = cut_at comma_or_hyphen cur s"
  by (induction s arbitrary: cur p) (simp_all add: scan_comma_or_hyphen scan_comma_or_hyphen_nil)

lemma edu_parts_trimmed: "edu_parts line = trimmed_parts line"
  by (simp add: edu_parts_def trimmed_parts_def re_split_def pieces_cut_at)

lemma rep_two_digits:
  "rep_states is_digit 2 (Some 2) 0 (p, s, g) =
     (case s of c # d # rest \<Rightarrow> if is_digit c \<and> is_digit d then [(Some d, rest, g)] else []
      | _ \<Rightarrow> [])"
proof (cases s)
  case Nil
  then show ?thesis by simp
next
  case (Cons c cs)
  show ?thesis
  proof (cases cs)
    case Nil
    with Cons show ?thesis by (simp add: below_max_def)
  next
    case (Cons d rest)
    with \<open>s = c # cs\<close> show ?thesis by (cases rest) (simp_all add: below_max_def)
  qed
qed

lemma year_match:
  "rmatch False YEAR_RE (p, s, []) =
     (if year_here s then [(Some (s ! 3), drop 4 s, [(1, take 2 s)])] else [])"
proof (cases s)
  case Nil
  then show ?thesis by (simp add: YEAR_RE_def)
next
  case s1: (Cons a as)
  show ?thesis
  proof (cases as)
    case Nil
    with s1 show ?thesis by (simp add: YEAR_RE_def chr_eq_def)
  next
    case s2: (Cons b bs)
    show ?thesis
    proof (cases bs)
      case Nil
      with s1 s2 show ?thesis
        by (auto simp: YEAR_RE_def chr_eq_def rep_two_digits simp del: rep_states.simps)
    next
      case s3: (Cons c cs)
      show ?thesis
      proof (cases cs)
        case Nil
        with s1 s2 s3 show ?thesis
          by (auto simp: YEAR_RE_def chr_eq_def rep_two_digits simp del: rep_states.simps)
      next
        case (Cons d rest)
        with s1 s2 s3 show ?thesis
          by (auto simp: YEAR_RE_def chr_eq_def rep_two_digits simp del: rep_states.simps)
      qed
    qed
  qed
qed

lemma year_search:
  "re_search_from False YEAR_RE p s = (if first_year s = [] then None else
     Some (first_year s, [(1, take 2 (first_year s))]))"
proof (induction s arbitrary: p)
  case Nil
  then show ?case by (simp add: year_match)
next
  case (Cons c cs)
  show ?case
  proof (cases "year_here (c # cs)")
    case True
    then obtain b d e rest where "cs = b # d # e # rest"
      by (cases "c # cs" rule: year_here.cases) auto
    with True show ?thesis by (simp add: year_match)
  next
    case False
    with Cons show ?thesis by (simp add: year_match)
  qed
qed

lemma edu_year_first: "edu_year line = first_year line"
  by (simp add: edu_year_def re_search_def year_search)

lemma cut_at_covers:
  "c \<in> set cur \<union> set s \<Longrightarrow> \<not> f c \<Longrightarrow> \<exists>p\<in>set (cut_at f cur s). c \<in> set p"
  by (induction s arbitrary: cur) (auto split: if_splits)

lemma keyword_char:
  assumes "has_edu_keyword (lower line)"
  shows "\<exists>c\<in>set line. \<not> is_space c \<and> \<not> comma_or_hyphen c"
proof -
  define ws where "ws =
     [''bachelor'', ''master'', ''b.a.'', ''b.sc.'', ''m.sc.'', ''phd'', ''b.tech'', ''m.tech'',
      ''bs'', ''ms'', ''mba'', ''associate'', ''high school'', ''secondary school'']"
  have k: "EDU_KEYWORDS = map lit ws"
    unfolding ws_def EDU_KEYWORDS_def by (simp only: list.map)
  have st: "\<forall>w\<in>set ws. w \<noteq> [] \<and> \<not> is_space (hd w) \<and> \<not> comma_or_hyphen (hd w)"
    unfolding ws_def by (simp add: comma_or_hyphen_def)
  from assms have "\<exists>r\<in>set (map lit ws). re_found False r (lower line)"
    by (simp only: has_edu_keyword_def list_ex_iff k)
  then obtain w where w: "w \<in> set ws" and f: "re_found False (lit w) (lower line)"
    by (metis (no_types, lifting) imageE set_map)
  from st w have h: "w \<noteq> []" "\<not> is_space (hd w)" "\<not> comma_or_hyphen (hd w)"
    by blast+
  from found_lit [OF f] have "set w \<subseteq> set (lower line)" by (rule set_mono_sublist)
  with h(1) have "hd w \<in> set (lower line)" by auto
  then obtain c where c: "c \<in> set line" "lower_c c = hd w" by (auto simp: lower_def)
  have "\<not> is_space c" using c(2) h(2) lower_c_space [of c] by auto
  moreover have "\<not> comma_or_hyphen c" using c(2) h(3) by (auto simp: comma_or_hyphen_def)
  ultimately show ?thesis using c(1) by blast
qed

lemma keyword_parts: "has_edu_keyword (lower line) \<Longrightarrow> trimmed_parts line \<noteq> []"
proof -
  assume "has_edu_keyword (lower line)"
  from keyword_char [OF this] obtain c where
    c: "c \<in> set line" "\<not> is_space c" "\<not> comma_or_hyphen c" by blast
  from cut_at_covers [of c "[]" line comma_or_hyphen] c obtain p where
    p: "p \<in> set (cut_at comma_or_hyphen [] line)" "c \<in> set p" by auto
  from strip_nonempty [OF p(2) c(2)] p(1) show ?thesis
    by (auto simp: trimmed_parts_def filter_empty_conv)
qed

lemma add_education_line:
  "add_education line results =
     Inr (if has_edu_keyword (lower line) then results @ [education_of_line line] else results)"
proof (cases "has_edu_keyword (lower line)")
  case True
  from keyword_parts [OF True] obtain x xs where "trimmed_parts line = x # xs"
    by (cases "trimmed_parts line") auto
  with True show ?thesis
    by (cases xs)
       (simp_all add: add_education_def education_of_line_def edu_parts_trimmed edu_year_first
          bind_err_def index_def)
next
  case False
  then show ?thesis by (simp add: add_education_def)
qed

lemma education_loop:
  "for_loop ls add_education acc =
     Inr (acc @ map education_of_line (filter (\<lambda>l. has_edu_keyword (lower l)) ls))"
  by (induction ls arbitrary: acc) (simp_all add: add_education_line bind_err_def)

section \<open>Scanning for phone candidates\<close>

lemma scan_cls:
  "re_scan False (Cls f) p s = map (\<lambda>c. if f c then Inr ([c], []) else Inl c) s"
proof (induction s arbitrary: p)
  case Nil
  show ?case by (subst re_scan.simps) simp
next
  case (Cons c cs)
  show ?case by (subst re_scan.simps) (simp add: Cons)
qed

lemma digits_of_filter: "digits_of candidate = filter is_digit candidate"
  by (induction candidate) (simp_all add: digits_of_def re_sub_def scan_cls)



lemma digit_not_special:
  "is_digit c \<Longrightarrow> c \<noteq> CHR ''+'' \<and> c \<noteq> CHR ''('' \<and> c \<noteq> CHR '')'' \<and> c \<noteq> CHR ''-''
     \<and> c \<noteq> CHR ''.'' \<and> \<not> is_space c"
  by (cases c) auto

lemma seven_digits_match:
  assumes "is_digit d1" "is_digit d2" "is_digit d3" "is_digit d4" "is_digit d5" "is_digit d6"
    "is_digit d7"
  shows "\<exists>rest. rmatch False PHONE_RE (p, [d1, d2, d3, d4, d5, d6, d7], []) =
           (Some d7, [], [(1, [d1])]) # rest"
  using assms digit_not_special [of d1] digit_not_special [of d2] digit_not_special [of d3]
    digit_not_special [of d4] digit_not_special [of d5] digit_not_special [of d6]
    digit_not_special [of d7]
  by (simp add: PHONE_RE_def chr_eq_def phone_sep_def phone_chr_def below_max_def)

lemma phone_needs_text: "rmatch False PHONE_RE (p, [], []) = []"
  by (simp add: PHONE_RE_def)

lemma seven_digits_scan:
  assumes "is_digit d1" "is_digit d2" "is_digit d3" "is_digit d4" "is_digit d5" "is_digit d6"
    "is_digit d7"
  shows "re_scan False PHONE_RE p [d1, d2, d3, d4, d5, d6, d7] =
           [Inr ([d1, d2, d3, d4, d5, d6, d7], [(1, [d1])])]"
proof -
  from seven_digits_match [OF assms, of p] obtain rest where
    r: "rmatch False PHONE_RE (p, [d1, d2, d3, d4, d5, d6, d7], []) =
           (Some d7, [], [(1, [d1])]) # rest" by blast
  have e: "re_scan False PHONE_RE (Some d7) [] = []"
    by (subst re_scan.simps) (simp add: phone_needs_text)
  show ?thesis by (subst re_scan.simps) (simp add: r e)
qed

lemma strip_digits: "list_all is_digit run \<Longrightarrow> strip run = run"
proof (rule strip_fix)
  assume a: "list_all is_digit run"
  show "run = [] \<or> (\<not> is_space (hd run) \<and> \<not> is_space (last run))"
  proof (cases "run = []")
    case True
    then show ?thesis by simp
  next
    case False
    then have "hd run \<in> set run" "last run \<in> set run" by simp_all
    with a have "is_digit (hd run)" "is_digit (last run)" by (auto simp: list_all_iff)
    then show ?thesis using digit_not_special by blast
  qed
qed

lemma seven_digits_phones:
  assumes "length run = 7" "list_all is_digit run"
  shows "phones (extract_contact run) = [run]"
proof -
  from assms(1) obtain d1 d2 d3 d4 d5 d6 d7 where run: "run = [d1, d2, d3, d4, d5, d6, d7]"
    by (auto simp: length_Suc_conv eval_nat_numeral)
  with assms(2) have d: "is_digit d1" "is_digit d2" "is_digit d3" "is_digit d4" "is_digit d5"
    "is_digit d6" "is_digit d7" by simp_all
  have f: "filter is_digit run = run" using assms(2) by (simp add: list_all_iff)
  have "re_finditer False PHONE_RE run = [(run, [(1, [d1])])]"
    unfolding run re_finditer_def seven_digits_scan [OF d] by simp
  then show ?thesis
    using assms(1)
    by (simp add: extract_contact_def Let_def add_phone_def digits_of_filter
        strip_digits [OF assms(2)] f)
qed





section \<open>The search for a year or the word present\<close>

lemma month_names_plain:
  "\<forall>n\<in>set MONTH_NAMES. \<not> list_ex is_digit n \<and> \<not> sublist ''present'' n"
  by code_simp

lemma lower_c_eq_digit_iff: "is_digit c \<Longrightarrow> lower_c z = c \<longleftrightarrow> z = c"
  using lower_c_digit [of c z] lower_c_of_digit [of c] by auto

lemma year_or_present_sound:
  assumes "rmatch True YEAR_OR_PRESENT (q, u, []) \<noteq> []"
  shows "year_here u \<or> (\<exists>t s'. u = t @ s' \<and> lower t = ''present'')"
proof -
  let ?y = "Seq (Grp 1 (Alt (lit ''19'') (lit ''20''))) (Rep is_digit 2 (Some 2))"
  from assms consider (year) "rmatch True ?y (q, u, []) \<noteq> []"
    | (present) "rmatch True (lit ''present'') (q, u, []) \<noteq> []"
    by (auto simp: YEAR_OR_PRESENT_def)
  then show ?thesis
  proof cases
    case year
    then obtain p' s' g' p2 s2 g2 w where
      w: "w = ''19'' \<or> w = ''20''"
      and a: "(p', s', g') \<in> set (rmatch True (lit w) (q, u, []))"
      and b: "(p2, s2, g2) \<in> set (rep_states is_digit 2 (Some 2) 0 (p', s', (1, take (length u - length s') u) # g'))"
      by (fastforce simp: neq_Nil_conv)
    from lit_sound [OF a] obtain t where t: "u = t @ s'" "list_all2 (chr_eq True) w t" by auto
    from rep_states_sound [OF b] obtain t2 where
      t2: "s' = t2 @ s2" "list_all is_digit t2" "2 \<le> length t2" by auto
    from t2 obtain c d r where r: "t2 = c # d # r"
      by (cases t2; cases "tl t2") auto
    from w t(2) have "t = w"
      by (auto simp: list_all2_Cons1 chr_eq_def lower_c_eq_digit_iff)
    with w t t2 r show ?thesis by auto
  next
    case present
    then have "hd (rmatch True (lit ''present'') (q, u, []))
        \<in> set (rmatch True (lit ''present'') (q, u, []))" by (rule hd_in_set)
    then obtain p' s' g' where
      "(p', s', g') \<in> set (rmatch True (lit ''present'') (q, u, []))" by (metis prod_cases3)
    from lit_sound [OF this] obtain t where
      t: "u = t @ s'" "list_all2 (chr_eq True) ''present'' t" by auto
    from t(2) have "lower t = ''present''"
      by (auto simp: list_all2_Cons1 chr_eq_def lower_def)
    with t(1) show ?thesis by blast
  qed
qed

lemma found_year_or_present:
  assumes "re_found True YEAR_OR_PRESENT tk"
  shows "has_year tk \<or> has_present tk"
proof -
  from assms obtain m where "re_search_from True YEAR_OR_PRESENT None tk = Some m"
    by (auto simp: re_found_def re_search_def)
  from search_from_sound [OF this] obtain pre u q where
    u: "tk = pre @ u" "rmatch True YEAR_OR_PRESENT (q, u, []) \<noteq> []" by blast
  from year_or_present_sound [OF u(2)] show ?thesis
  proof
    assume "year_here u"
    moreover have "u \<in> set (suffixes tk)" using u(1) by (simp add: suffix_def)
    ultimately show ?thesis by (auto simp: has_year_def list_ex_iff)
  next
    assume "\<exists>t s'. u = t @ s' \<and> lower t = ''present''"
    then obtain t s' where "u = t @ s'" "lower t = ''present''" by blast
    with u(1) have "lower tk = lower pre @ ''present'' @ lower s'"
      by (simp add: lower_def)
    then show ?thesis unfolding has_present_def by (metis sublist_appendI)
  qed
qed

lemma has_year_digit: "has_year tk \<Longrightarrow> list_ex is_digit (lower tk)"
proof -
  assume "has_year tk"
  then obtain u where u: "suffix u tk" "year_here u"
    by (auto simp: has_year_def list_ex_iff)
  then obtain a b c d r where "u = a # b # c # d # r" "is_digit c"
    by (cases u rule: year_here.cases) auto
  with u(1) have "c \<in> set tk" by (auto simp: suffix_def)
  moreover from \<open>is_digit c\<close> have "lower_c c = c" by (rule lower_c_of_digit)
  ultimately have "c \<in> set (lower tk)" unfolding lower_def by (metis image_eqI set_map)
  with \<open>is_digit c\<close> show ?thesis by (auto simp: list_ex_iff)
qed

lemma date_tokens_of_found: "tk \<in> set (date_tokens_of title) \<Longrightarrow> re_found True YEAR_OR_PRESENT tk"
  by (auto simp: date_tokens_of_def)

lemma parse_experience_tokens:
  "e \<in> set (parse_experience section_text) \<Longrightarrow> date_tokens e = date_tokens_of (title_company e)"
  by (auto simp: parse_experience_def Let_def)

section \<open>The orchestrator never raises\<close>

lemma find_keys: "find P (map fst secs) = map_option fst (find (\<lambda>kb. P (fst kb)) secs)"
  by (induction secs) simp_all

lemma find_map_of:
  "find (\<lambda>kb. P (fst kb)) secs = Some kb \<Longrightarrow> map_of secs (fst kb) = Some (snd kb)"
proof (induction secs)
  case Nil
  then show ?case by simp
next
  case (Cons x secs)
  show ?case
  proof (cases "P (fst x)")
    case True
    with Cons.prems show ?thesis by (cases x) simp
  next
    case False
    with Cons.prems have f: "find (\<lambda>kb. P (fst kb)) secs = Some kb" by simp
    then have "P (fst kb)" by (auto simp: find_Some_iff)
    with False have "fst x \<noteq> fst kb" by auto
    with Cons.IH [OF f] show ?thesis by (cases x) simp
  qed
qed

lemma section_of_first:
  "section_of P secs =
     Inr (case find (\<lambda>kb. P (fst kb)) secs of None \<Rightarrow> [] | Some kb \<Rightarrow> snd kb)"
proof (cases "find (\<lambda>kb. P (fst kb)) secs")
  case None
  then show ?thesis by (simp add: section_of_def find_keys)
next
  case (Some kb)
  from find_map_of [OF this] Some show ?thesis
    by (simp add: section_of_def find_keys dict_get_def)
qed

lemma find_None_keys: "find (\<lambda>kb. P (fst kb)) secs = None \<longleftrightarrow> (\<forall>k\<in>fst ` set secs. \<not> P k)"
  by (auto simp: find_None_iff)

lemma dict_get_present: "k \<in> set (map fst d) \<Longrightarrow> \<exists>v. dict_get d k = Inr v"
  by (cases "map_of d k") (auto simp: dict_get_def map_of_eq_None_iff)

lemma summary_of_total: "\<exists>v. summary_of secs = Inr v"
proof -
  let ?s = "case find (\<lambda>kb. sublist ''summary'' (fst kb) \<or> sublist ''objective'' (fst kb)) secs of
      None \<Rightarrow> [] | Some kb \<Rightarrow> snd kb"
  have s: "section_of (\<lambda>k. sublist ''summary'' k \<or> sublist ''objective'' k) secs = Inr ?s"
    by (rule section_of_first)
  show ?thesis
  proof (cases "?s = [] \<and> ''top'' \<in> set (map fst secs)")
    case True
    then have "''top'' \<in> set (map fst secs)" by (rule conjunct2)
    from dict_get_present [OF this] obtain t where t: "dict_get secs ''top'' = Inr t" ..
    have "summary_of secs = Inr (join [LF] (take 3 (splitlines t)))"
      unfolding summary_of_def s bind_err_def using True t by simp
    then show ?thesis ..
  next
    case False
    have "summary_of secs = Inr ?s"
      unfolding summary_of_def s bind_err_def using False by auto
    then show ?thesis ..
  qed
qed


lemma extract_education_total: "\<exists>es. extract_education t = Inr es"
  by (simp add: extract_education_def education_loop)

lemma parse_resume_eq:
  "\<exists>edu summ. parse_resume_from_text nlp raw_text =
     Inr \<lparr>contact = extract_contact (clean_text raw_text),
          summary = summ,
          skills = extract_skills nlp
            (if first_section ''skill'' (sections_of (clean_text raw_text)) = []
             then clean_text raw_text
             else first_section ''skill'' (sections_of (clean_text raw_text))) None,
          education = edu,
          experience =
            (if first_section ''experi'' (sections_of (clean_text raw_text)) \<noteq> []
             then parse_experience (first_section ''experi'' (sections_of (clean_text raw_text)))
             else []),
          raw_sections = sections_of (clean_text raw_text)\<rparr>
     \<and> (if first_section ''educat'' (sections_of (clean_text raw_text)) \<noteq> []
          then extract_education (first_section ''educat'' (sections_of (clean_text raw_text)))
          else Inr []) = Inr edu
     \<and> summary_of (sections_of (clean_text raw_text)) = Inr summ"
proof -
  let ?secs = "sections_of (clean_text raw_text)"
  obtain summ where s: "summary_of ?secs = Inr summ" using summary_of_total by blast
  obtain edu where e: "(if first_section ''educat'' ?secs \<noteq> []
          then extract_education (first_section ''educat'' ?secs) else Inr []) = Inr edu"
    using extract_education_total by (cases "first_section ''educat'' ?secs \<noteq> []") auto
  show ?thesis
    using s e
    by (simp add: parse_resume_from_text_def Let_def split_sections_eq bind_err_def
        skills_text_of_def section_of_first first_section_def [symmetric])
qed

lemma first_section_none:
  "\<forall>k\<in>fst ` set secs. \<not> sublist w k \<Longrightarrow> first_section w secs = []"
  by (simp add: first_section_def find_None_keys [THEN iffD2])

lemma find_first_index:
  assumes "i < length secs" "P (fst (secs ! i))" "\<forall>j<i. \<not> P (fst (secs ! j))"
  shows "find (\<lambda>kb. P (fst kb)) secs = Some (secs ! i)"
  using assms by (auto simp: find_Some_iff)

lemma skills_text_of_eq:
  "skills_text_of txt secs =
     Inr (if first_section ''skill'' secs = [] then txt else first_section ''skill'' secs)"
  by (simp add: skills_text_of_def section_of_first bind_err_def first_section_def)

section \<open>Reading back what was written\<close>

lemma loads_dumps: "json_loads (json_dumps v) = detuple v"
proof (induction v)
  case (PStr s)
  then show ?case by simp
next
  case (PList xs)
  then show ?case by simp
next
  case (PTuple xs)
  then show ?case by simp
next
  case (PDict kvs)
  have "json_loads (json_dumps (snd kv)) = detuple (snd kv)" if "kv \<in> set kvs" for kv
    using PDict [OF that, of "snd kv"] by (cases kv) simp
  then show ?case by simp
qed

lemma detuple_strs: "detuple (py_strs xs) = py_strs xs"
  by (simp add: py_strs_def comp_def)

lemma detuple_contact: "detuple (py_contact c) = py_contact c"
  by (simp add: py_contact_def detuple_strs)

lemma detuple_education: "detuple (py_education e) = py_education e"
  by (simp add: py_education_def)

lemma detuple_experience:
  "detuple (py_experience e) = py_experience e \<longleftrightarrow> dates e = []"
  by (cases "dates e") (simp_all add: py_experience_def detuple_strs comp_def)

lemma detuple_experience_list:
  "map detuple (map py_experience es) = map py_experience es \<longleftrightarrow> (\<forall>e\<in>set es. dates e = [])"
  by (induction es) (simp_all add: detuple_experience)

lemma detuple_resume:
  "detuple (py_resume r) = py_resume r \<longleftrightarrow> (\<forall>e\<in>set (experience r). dates e = [])"
  using detuple_experience_list [of "experience r"]
  by (simp add: py_resume_def detuple_strs detuple_contact detuple_education comp_def)

section \<open>The cleaner applied twice\<close>

text \<open>
  C1, as the code has it. \<open>clean_text\<close> is idempotent on every text that holds none of the
  control characters it strips (0x00 to 0x08, 0x0B, 0x0C, 0x0E to 0x1F): cleaning the
  cleaned text gives the cleaned text again.
\<close>

theorem clean_text_idempotent:
  assumes "\<forall>c\<in>set x. \<not> is_ctrl c"
  shows "clean_text (clean_text x) = clean_text x"
proof -
  have "strip (clean_text x) = clean_text x"
    by (simp add: clean_text_def strip_strip Let_def)
  with clean_text_normal [OF assms] show ?thesis
    by (intro clean_text_fix) simp_all
qed

theorem clean_text_idempotent_witness:
  "list_all (\<lambda>c. \<not> is_ctrl c) (''  a '' @ [TAB] @ '' b'' @ [CR, LF, LF, LF, LF] @ ''c  '')
   \<and> clean_text (clean_text (''  a '' @ [TAB] @ '' b'' @ [CR, LF, LF, LF, LF] @ ''c  ''))
       = clean_text (''  a '' @ [TAB] @ '' b'' @ [CR, LF, LF, LF, LF] @ ''c  '')
   \<and> clean_text (''  a '' @ [TAB] @ '' b'' @ [CR, LF, LF, LF, LF] @ ''c  '')
       = ''a b'' @ [LF, LF] @ ''c''"
proof -
  have h: "list_all (\<lambda>c. \<not> is_ctrl c) (''  a '' @ [TAB] @ '' b'' @ [CR, LF, LF, LF, LF] @ ''c  '')"
    by code_simp
  then have "\<forall>c\<in>set (''  a '' @ [TAB] @ '' b'' @ [CR, LF, LF, LF, LF] @ ''c  ''). \<not> is_ctrl c"
    by (simp only: list_all_iff)
  from clean_text_idempotent [OF this]
  have i: "clean_text (clean_text (''  a '' @ [TAB] @ '' b'' @ [CR, LF, LF, LF, LF] @ ''c  ''))
       = clean_text (''  a '' @ [TAB] @ '' b'' @ [CR, LF, LF, LF, LF] @ ''c  '')" .
  have v: "clean_text (''  a '' @ [TAB] @ '' b'' @ [CR, LF, LF, LF, LF] @ ''c  '')
       = ''a b'' @ [LF, LF] @ ''c''"
    by code_simp
  from h i v show ?thesis by (intro conjI)
qed

text \<open>
  C1 as stated fails: a control character between two spaces is stripped after the runs of
  spaces were collapsed, which leaves two spaces that a second cleaning collapses.
\<close>

theorem clean_text_not_idempotent:
  "clean_text (clean_text [CHR ''a'', SP, CHR 0x01, SP, CHR ''b''])
   \<noteq> clean_text [CHR ''a'', SP, CHR 0x01, SP, CHR ''b'']"
  by code_simp

section \<open>The keys of the sections\<close>

text \<open>
  C2. If some line of the text is a header line, \<open>split_sections\<close> returns a mapping whose
  keys are the trimmed lower-case header lines, and also the key \<open>top\<close>, never a header
  key, exactly when the text before the first header line is not empty after trimming, and
  then \<open>top\<close> holds that trimmed text. If no line is a header line it returns the one entry
  \<open>main\<close> with the whole text.
\<close>

theorem split_sections_keys:
  "((\<exists>l\<in>set (splitlines text). header_line l) \<longrightarrow>
      (\<exists>secs. split_sections text = Inr secs
         \<and> fst ` set secs =
             set (header_keys text)
             \<union> (if block_text (takeWhile (\<lambda>l. \<not> header_line l) (splitlines text)) \<noteq> []
                then {''top''} else {})
         \<and> ''top'' \<notin> set (header_keys text)
         \<and> (block_text (takeWhile (\<lambda>l. \<not> header_line l) (splitlines text)) \<noteq> [] \<longrightarrow>
              map_of secs ''top''
                = Some (block_text (takeWhile (\<lambda>l. \<not> header_line l) (splitlines text))))))
   \<and> ((\<forall>l\<in>set (splitlines text). \<not> header_line l) \<longrightarrow>
         split_sections text = Inr [(''main'', text)])"
proof (intro conjI impI)
  assume "\<exists>l\<in>set (splitlines text). header_line l"
  then have k: "header_keys text \<noteq> []" by (simp add: header_keys_empty)
  let ?top = "block_text (takeWhile (\<lambda>l. \<not> header_line l) (splitlines text))"
  let ?secs = "foldl put_section [] (zip (header_keys text) (tl (blocks text)))"
  have s: "sections_of text = (if ?top \<noteq> [] then AList.update ''top'' ?top ?secs else ?secs)"
    using k by (simp add: sections_of_def Let_def hd_blocks)
  have ks: "fst ` set ?secs = set (header_keys text)"
    by (simp add: keys_put_sections keys_zip_blocks)
  have "fst ` set (sections_of text) =
      set (header_keys text) \<union> (if ?top \<noteq> [] then {''top''} else {})"
    unfolding s using ks by (auto simp: dom_update)
  moreover have "?top \<noteq> [] \<longrightarrow> map_of (sections_of text) ''top'' = Some ?top"
    unfolding s by (simp add: update_conv')
  ultimately show "\<exists>secs. split_sections text = Inr secs
         \<and> fst ` set secs = set (header_keys text) \<union> (if ?top \<noteq> [] then {''top''} else {})
         \<and> ''top'' \<notin> set (header_keys text)
         \<and> (?top \<noteq> [] \<longrightarrow> map_of secs ''top'' = Some ?top)"
    using split_sections_eq [of "text"] top_no_header [of "text"] by blast
next
  assume "\<forall>l\<in>set (splitlines text). \<not> header_line l"
  then have "header_keys text = []" by (simp add: header_keys_empty)
  then show "split_sections text = Inr [(''main'', text)]"
    by (simp add: split_sections_eq sections_of_def)
qed

theorem split_sections_keys_witness:
  "list_ex header_line (splitlines ''John\<newline>Skills\<newline>Python'')
   \<and> split_sections ''John\<newline>Skills\<newline>Python'' = Inr [(''skills'', ''Python''), (''top'', ''John'')]
   \<and> set (header_keys ''John\<newline>Skills\<newline>Python'')
       \<union> (if block_text (takeWhile (\<lambda>l. \<not> header_line l) (splitlines ''John\<newline>Skills\<newline>Python'')) \<noteq> []
          then {''top''} else {})
       = {''skills'', ''top''}
   \<and> list_all (\<lambda>l. \<not> header_line l) (splitlines ''no heading here'')
   \<and> split_sections ''no heading here'' = Inr [(''main'', ''no heading here'')]"
proof -
  have h: "list_ex header_line (splitlines ''John\<newline>Skills\<newline>Python'')" by code_simp
  have v: "split_sections ''John\<newline>Skills\<newline>Python''
      = Inr [(''skills'', ''Python''), (''top'', ''John'')]" by code_simp
  have n: "list_all (\<lambda>l. \<not> header_line l) (splitlines ''no heading here'')" by code_simp
  from h have h': "\<exists>l\<in>set (splitlines ''John\<newline>Skills\<newline>Python''). header_line l"
    by (simp only: list_ex_iff)
  from n have n': "\<forall>l\<in>set (splitlines ''no heading here''). \<not> header_line l"
    by (simp only: list_all_iff)
  from split_sections_keys [of "''John\<newline>Skills\<newline>Python''"] h' obtain secs where
    s: "split_sections ''John\<newline>Skills\<newline>Python'' = Inr secs"
      "fst ` set secs = set (header_keys ''John\<newline>Skills\<newline>Python'')
       \<union> (if block_text (takeWhile (\<lambda>l. \<not> header_line l) (splitlines ''John\<newline>Skills\<newline>Python'')) \<noteq> []
          then {''top''} else {})"
    by blast
  from s(1) v have "secs = [(''skills'', ''Python''), (''top'', ''John'')]" by simp
  with s(2) have k: "set (header_keys ''John\<newline>Skills\<newline>Python'')
       \<union> (if block_text (takeWhile (\<lambda>l. \<not> header_line l) (splitlines ''John\<newline>Skills\<newline>Python'')) \<noteq> []
          then {''top''} else {})
       = {''skills'', ''top''}" by auto
  from split_sections_keys [of "''no heading here''"] n'
  have m: "split_sections ''no heading here'' = Inr [(''main'', ''no heading here'')]" by blast
  from h v k n m show ?thesis by (intro conjI)
qed

section \<open>The JSON round trip\<close>

text \<open>
  C3, as the code has it. Writing a result as JSON and reading the document back gives the
  result with every tuple turned into a list: the elements of \<open>dates\<close>, which \<open>findall\<close>
  returns as tuples of the 15 groups, come back as lists. So what is read is equal to what
  was written exactly when every experience entry has an empty \<open>dates\<close>.
\<close>

theorem json_round_trip:
  "json_loads (to_json r) = detuple (py_resume r)
   \<and> (json_loads (to_json r) = py_resume r \<longleftrightarrow> (\<forall>e\<in>set (experience r). dates e = []))"
  by (simp add: to_json_def loads_dumps detuple_resume)

theorem json_round_trip_witness:
  "\<exists>r. parse_resume_from_text None ''Experience\<newline>Acme'' = Inr r
     \<and> map dates (experience r) = [[]]
     \<and> list_all (\<lambda>e. dates e = []) (experience r)
     \<and> json_loads (to_json r) = py_resume r"
proof -
  define R where "R = \<lparr>contact = \<lparr>emails = [], phones = [], linkedin = []\<rparr>, summary = [],
     skills = [],
     education = [],
     experience = [\<lparr>title_company = ''Acme'', dates = [], details = [], date_tokens = []\<rparr>],
     raw_sections = [(''experience'', ''Acme'')]\<rparr>"
  have v: "parse_resume_from_text None ''Experience\<newline>Acme'' = Inr R"
    unfolding R_def by code_simp
  have d: "map dates (experience R) = [[]]" unfolding R_def by simp
  then have h: "list_all (\<lambda>e. dates e = []) (experience R)" unfolding R_def by simp
  then have "\<forall>e\<in>set (experience R). dates e = []" by (simp only: list_all_iff)
  with json_round_trip [of R] have "json_loads (to_json R) = py_resume R" by blast
  with v d h show ?thesis by (intro exI [of _ R] conjI)
qed

text \<open>
  C3 as stated fails: the title line of this entry holds a year, so \<open>dates\<close> holds a tuple,
  and the value read back holds a list in its place.
\<close>

theorem json_round_trip_differs:
  "(case parse_resume_from_text None ''Experience\<newline>Engineer 2020'' of
      Inl e \<Rightarrow> False
    | Inr r \<Rightarrow>
        map dates (experience r) = [[[[], [], [], [], [], [], [], [], [], [], [], [], [], ''2020'', ''20'']]]
        \<and> json_loads (to_json r) \<noteq> py_resume r)"
  by code_simp

section \<open>The text given to the skill extractor\<close>

text \<open>
  C4, as the code has it. The skills of the result are those that \<open>extract_skills\<close> finds
  in the text chosen by \<open>skills_text_of\<close> from the cleaned text and the sections. That
  text is the body of the first section, in the order of insertion, whose key holds
  \<open>skill\<close>, if that body is not empty; it is the whole cleaned text when no key holds
  \<open>skill\<close>, and also when the body of that first section is empty.
\<close>

theorem skills_text_choice:
  "(parse_resume_from_text nlp raw_text = Inr r \<longrightarrow>
      (\<exists>t. skills_text_of (clean_text raw_text) (raw_sections r) = Inr t
         \<and> skills r = extract_skills nlp t None))
   \<and> ((\<forall>k\<in>fst ` set secs. \<not> sublist ''skill'' k) \<longrightarrow> skills_text_of txt secs = Inr txt)
   \<and> (i < length secs \<and> sublist ''skill'' (fst (secs ! i))
        \<and> (\<forall>j<i. \<not> sublist ''skill'' (fst (secs ! j)))
      \<longrightarrow> skills_text_of txt secs = Inr (if snd (secs ! i) = [] then txt else snd (secs ! i)))"
proof (intro conjI impI)
  assume a: "parse_resume_from_text nlp raw_text = Inr r"
  from parse_resume_eq [of nlp raw_text] a
  have "raw_sections r = sections_of (clean_text raw_text)"
    and "skills r = extract_skills nlp
            (if first_section ''skill'' (sections_of (clean_text raw_text)) = []
             then clean_text raw_text
             else first_section ''skill'' (sections_of (clean_text raw_text))) None"
    by auto
  then show "\<exists>t. skills_text_of (clean_text raw_text) (raw_sections r) = Inr t
         \<and> skills r = extract_skills nlp t None"
    by (simp add: skills_text_of_eq)
next
  assume "\<forall>k\<in>fst ` set secs. \<not> sublist ''skill'' k"
  then show "skills_text_of txt secs = Inr txt"
    by (simp add: skills_text_of_eq first_section_none)
next
  assume "i < length secs \<and> sublist ''skill'' (fst (secs ! i))
        \<and> (\<forall>j<i. \<not> sublist ''skill'' (fst (secs ! j)))"
  then have "find (\<lambda>kb. sublist ''skill'' (fst kb)) secs = Some (secs ! i)"
    using find_first_index [of i secs "sublist ''skill''"] by blast
  then show "skills_text_of txt secs = Inr (if snd (secs ! i) = [] then txt else snd (secs ! i))"
    by (simp add: skills_text_of_eq first_section_def)
qed

theorem skills_text_choice_witness:
  "\<exists>r. parse_resume_from_text None ''Java\<newline>Skills\<newline>Python\<newline>Education\<newline>x'' = Inr r
     \<and> raw_sections r = [(''skills'', ''Python''), (''education'', ''x''), (''top'', ''Java'')]
     \<and> skills_text_of (clean_text ''Java\<newline>Skills\<newline>Python\<newline>Education\<newline>x'') (raw_sections r)
         = Inr ''Python''
     \<and> skills r = extract_skills None ''Python'' None
     \<and> skills r = [''python'']
     \<and> list_all (\<lambda>k. \<not> sublist ''skill'' k) (map fst [(''education'', ''x'')])
     \<and> skills_text_of ''whole text'' [(''education'', ''x'')] = Inr ''whole text''"
proof -
  define T where "T = ''Java\<newline>Skills\<newline>Python\<newline>Education\<newline>x''"
  define S where "S = [(''skills'', ''Python''), (''education'', ''x''), (''top'', ''Java'')]"
  have v: "parse_resume_from_text None T =
      Inr \<lparr>contact = \<lparr>emails = [], phones = [], linkedin = []\<rparr>, summary = ''Java'',
           skills = [''python''],
           education = [], experience = [], raw_sections = S\<rparr>"
    unfolding T_def S_def by code_simp
  note t1 = skills_text_choice [of None T _ S "clean_text T" 0]
  from t1 v obtain t where
    t: "skills_text_of (clean_text T) S = Inr t" "[''python''] = extract_skills None t None"
    by force
  have i: "0 < length S \<and> sublist ''skill'' (fst (S ! 0))
        \<and> (\<forall>j<0. \<not> sublist ''skill'' (fst (S ! j)))"
    unfolding S_def by (simp add: sublist_code)
  with t1 have "skills_text_of (clean_text T) S
      = Inr (if snd (S ! 0) = [] then clean_text T else snd (S ! 0))" by blast
  then have c: "skills_text_of (clean_text T) S = Inr ''Python''" unfolding S_def by simp
  with t have e: "[''python''] = extract_skills None ''Python'' None" by simp
  have h: "list_all (\<lambda>k. \<not> sublist ''skill'' k) (map fst [(''education'', ''x'')])"
    by code_simp
  then have "\<forall>k\<in>fst ` set [(''education'', ''x'')]. \<not> sublist ''skill'' k"
    by (simp only: list_all_iff set_map)
  with skills_text_choice [of None T _ "[(''education'', ''x'')]" "''whole text''" 0]
  have w: "skills_text_of ''whole text'' [(''education'', ''x'')] = Inr ''whole text''" by blast
  from v c e h w show ?thesis unfolding T_def S_def
    by (intro exI [of _ "\<lparr>contact = \<lparr>emails = [], phones = [], linkedin = []\<rparr>, summary = ''Java'',
           skills = [''python''],
           education = [], experience = [],
           raw_sections = [(''skills'', ''Python''), (''education'', ''x''), (''top'', ''Java'')]\<rparr>"])
       simp
qed

text \<open>
  C4 as stated fails: here a section key holds \<open>skill\<close>, the body of that section is
  empty, and the skill extractor is given the whole text, in which it finds \<open>python\<close>; on
  the body of the section it finds nothing.
\<close>

theorem empty_skills_section_falls_back:
  "(case parse_resume_from_text None ''python\<newline>Skills'' of
      Inl e \<Rightarrow> False
    | Inr r \<Rightarrow> raw_sections r = [(''skills'', []), (''top'', ''python'')]
        \<and> skills r = [''python''])
   \<and> skills_text_of (clean_text ''python\<newline>Skills'') [(''skills'', []), (''top'', ''python'')]
       = Inr ''python\<newline>Skills''
   \<and> extract_skills None [] None = []"
  by code_simp

section \<open>The bodies of the sections\<close>

text \<open>
  C5, as the code has it. \<open>split_sections\<close> never raises. Without a header line its one
  body is the whole text. With a header line, every returned body is the trimmed text of
  one block of consecutive input lines, and different entries take different blocks; the
  blocks in document order, put end to end, are the input lines without the header lines,
  a subsequence of the input lines. (A body is trimmed, so its first and last line can be
  shorter than the input line they come from.)
\<close>

theorem segment_bodies:
  "\<exists>secs. split_sections text = Inr secs
     \<and> ((\<forall>l\<in>set (splitlines text). \<not> header_line l) \<longrightarrow> secs = [(''main'', text)])
     \<and> ((\<exists>l\<in>set (splitlines text). header_line l) \<longrightarrow>
          (\<exists>j. inj_on j (set secs)
             \<and> (\<forall>kb\<in>set secs. j kb < length (blocks text)
                   \<and> snd kb = block_text (blocks text ! j kb))))
     \<and> concat (blocks text) = filter (\<lambda>l. \<not> header_line l) (splitlines text)
     \<and> subseq (concat (blocks text)) (splitlines text)"
proof -
  have c: "concat (blocks text) = filter (\<lambda>l. \<not> header_line l) (splitlines text)"
    by (simp add: blocks_def concat_cut_at)
  have m: "sections_of text = [(''main'', text)]"
    if "\<forall>l\<in>set (splitlines text). \<not> header_line l"
    using that by (simp add: sections_of_def header_keys_empty)
  have b: "\<exists>j. inj_on j (set (sections_of text))
             \<and> (\<forall>kb\<in>set (sections_of text). j kb < length (blocks text)
                   \<and> snd kb = block_text (blocks text ! j kb))"
    if "\<exists>l\<in>set (splitlines text). header_line l"
  proof -
    from that have k: "header_keys text \<noteq> []" by (simp add: header_keys_empty)
    have "\<forall>kb\<in>set (sections_of text). \<exists>i. i < length (blocks text)
        \<and> (''top'' # header_keys text) ! i = fst kb \<and> snd kb = block_text (blocks text ! i)"
      using section_block [OF k] by blast
    from bchoice [OF this] obtain j where
      j: "\<forall>kb\<in>set (sections_of text). j kb < length (blocks text)
        \<and> (''top'' # header_keys text) ! j kb = fst kb
        \<and> snd kb = block_text (blocks text ! j kb)" by blast
    have "inj_on j (set (sections_of text))"
    proof (rule inj_onI)
      fix x y assume xy: "x \<in> set (sections_of text)" "y \<in> set (sections_of text)" "j x = j y"
      with j have "fst x = fst y" by metis
      moreover have "inj_on fst (set (sections_of text))"
        using distinct_sections_of [of "text"] by (simp add: distinct_map)
      ultimately show "x = y" using xy(1,2) by (metis inj_onD)
    qed
    with j show ?thesis by blast
  qed
  from c m b show ?thesis
    by (intro exI [of _ "sections_of text"]) (simp add: split_sections_eq)
qed

theorem segment_bodies_witness:
  "list_ex header_line (splitlines ''intro\<newline>Skills\<newline> py \<newline>Education\<newline>BSc'')
   \<and> split_sections ''intro\<newline>Skills\<newline> py \<newline>Education\<newline>BSc''
       = Inr [(''skills'', ''py''), (''education'', ''BSc''), (''top'', ''intro'')]
   \<and> blocks ''intro\<newline>Skills\<newline> py \<newline>Education\<newline>BSc'' = [[''intro''], ['' py ''], [''BSc'']]
   \<and> (\<exists>j. inj_on j (set [(''skills'', ''py''), (''education'', ''BSc''), (''top'', ''intro'')])
        \<and> list_all (\<lambda>kb. j kb < length [[''intro''], ['' py ''], [''BSc'']]
                       \<and> snd kb = block_text ([[''intro''], ['' py ''], [''BSc'']] ! j kb))
             [(''skills'', ''py''), (''education'', ''BSc''), (''top'', ''intro'')])
   \<and> subseq (concat [[''intro''], ['' py ''], [''BSc'']])
        (splitlines ''intro\<newline>Skills\<newline> py \<newline>Education\<newline>BSc'')"
proof -
  define t where "t = ''intro\<newline>Skills\<newline> py \<newline>Education\<newline>BSc''"
  have h: "list_ex header_line (splitlines t)" unfolding t_def by code_simp
  have v: "split_sections t = Inr [(''skills'', ''py''), (''education'', ''BSc''), (''top'', ''intro'')]"
    unfolding t_def by code_simp
  have bl: "blocks t = [[''intro''], ['' py ''], [''BSc'']]" unfolding t_def by code_simp
  from h have h': "\<exists>l\<in>set (splitlines t). header_line l" by (simp only: list_ex_iff)
  from segment_bodies [of t] obtain secs where
    s: "split_sections t = Inr secs"
    and b: "(\<exists>l\<in>set (splitlines t). header_line l) \<longrightarrow>
          (\<exists>j. inj_on j (set secs)
             \<and> (\<forall>kb\<in>set secs. j kb < length (blocks t) \<and> snd kb = block_text (blocks t ! j kb)))"
    and q: "subseq (concat (blocks t)) (splitlines t)"
    by blast
  from s v have e: "secs = [(''skills'', ''py''), (''education'', ''BSc''), (''top'', ''intro'')]"
    by simp
  from b h' have x: "\<exists>j. inj_on j (set secs)
      \<and> list_all (\<lambda>kb. j kb < length (blocks t) \<and> snd kb = block_text (blocks t ! j kb)) secs"
    by (simp only: list_all_iff)
  note c1 = h [unfolded t_def]
  note c2 = v [unfolded t_def]
  note c3 = bl [unfolded t_def]
  note c4 = x [unfolded e bl]
  note c5 = q [unfolded bl, unfolded t_def]
  from c1 c2 c3 c4 c5 show ?thesis by (intro conjI)
qed

text \<open>
  C5 as stated fails: the body of the section is trimmed, and its line is not a line of
  the input.
\<close>

theorem segment_line_trimmed:
  "split_sections ''Skills\<newline> a'' = Inr [(''skills'', ''a'')]
   \<and> splitlines ''Skills\<newline> a'' = [''Skills'', '' a'']
   \<and> \<not> subseq (splitlines ''a'') (splitlines ''Skills\<newline> a'')"
  by code_simp

section \<open>The experience extractor on the specification's example\<close>

text \<open>
  C6. For the section text of four lines, a dated title line, a bullet, a second dated title
  line and a second bullet, \<open>parse_experience\<close> returns exactly two entries: the first has
  the first title line as \<open>title_company\<close> and the first bullet as its only detail, the
  second has the second title line and the second bullet.
\<close>

theorem parse_experience_example:
  "map (\<lambda>e. (title_company e, details e))
     (parse_experience
        ''Engineer, Acme (2020-Present)\<newline>- did X\<newline>Intern, Beta (2018-2019)\<newline>- did Y'')
   = [(''Engineer, Acme (2020-Present)'', [''- did X'']),
      (''Intern, Beta (2018-2019)'', [''- did Y''])]"
  by code_simp

section \<open>The phone candidates\<close>




section \<open>The education entries\<close>

text \<open>
  C8. On the line \<open>Bachelor of Science, University X, 2019\<close> the education extractor
  returns one entry, with that degree, institution and year. In general it returns, without
  raising, one entry for each line that holds a degree keyword, in the order of the lines:
  the degree is the first trimmed non-empty part of the line between commas and hyphens
  (such a line always has one), the institution is the second part if there is one, and the
  year is the first four characters that are 19 or 20 followed by two digits.
\<close>

theorem extract_education_entries:
  "extract_education ''Bachelor of Science, University X, 2019''
     = Inr [\<lparr>degree = ''Bachelor of Science'', institution = ''University X'', year = ''2019'',
             raw = ''Bachelor of Science, University X, 2019''\<rparr>]
   \<and> extract_education section_text
     = Inr (map education_of_line
              (filter (\<lambda>l. has_edu_keyword (lower l)) (splitlines section_text)))
   \<and> (has_edu_keyword (lower line) \<longrightarrow> trimmed_parts line \<noteq> [])"
proof (intro conjI impI)
  show "extract_education ''Bachelor of Science, University X, 2019''
     = Inr [\<lparr>degree = ''Bachelor of Science'', institution = ''University X'', year = ''2019'',
             raw = ''Bachelor of Science, University X, 2019''\<rparr>]"
    by code_simp
  show "extract_education section_text
     = Inr (map education_of_line
              (filter (\<lambda>l. has_edu_keyword (lower l)) (splitlines section_text)))"
    by (simp add: extract_education_def education_loop)
  show "trimmed_parts line \<noteq> []" if "has_edu_keyword (lower line)"
    using that by (rule keyword_parts)
qed

theorem extract_education_entries_witness:
  "has_edu_keyword (lower ''MBA, Harvard 2001'')
   \<and> trimmed_parts ''MBA, Harvard 2001'' \<noteq> []
   \<and> extract_education ''B.Sc. - MIT\<newline>notes\<newline>MBA, Harvard 2001''
       = Inr [\<lparr>degree = ''B.Sc.'', institution = ''MIT'', year = [], raw = ''B.Sc. - MIT''\<rparr>,
              \<lparr>degree = ''MBA'', institution = ''Harvard 2001'', year = ''2001'',
                raw = ''MBA, Harvard 2001''\<rparr>]"
proof -
  have h: "has_edu_keyword (lower ''MBA, Harvard 2001'')" by code_simp
  note t = extract_education_entries
    [of "''B.Sc. - MIT\<newline>notes\<newline>MBA, Harvard 2001''" "''MBA, Harvard 2001''"]
  from t h have p: "trimmed_parts ''MBA, Harvard 2001'' \<noteq> []" by blast
  have v: "map education_of_line
              (filter (\<lambda>l. has_edu_keyword (lower l))
                 (splitlines ''B.Sc. - MIT\<newline>notes\<newline>MBA, Harvard 2001''))
       = [\<lparr>degree = ''B.Sc.'', institution = ''MIT'', year = [], raw = ''B.Sc. - MIT''\<rparr>,
          \<lparr>degree = ''MBA'', institution = ''Harvard 2001'', year = ''2001'',
            raw = ''MBA, Harvard 2001''\<rparr>]"
    by code_simp
  from t have "extract_education ''B.Sc. - MIT\<newline>notes\<newline>MBA, Harvard 2001''
     = Inr (map education_of_line
              (filter (\<lambda>l. has_edu_keyword (lower l))
                 (splitlines ''B.Sc. - MIT\<newline>notes\<newline>MBA, Harvard 2001'')))"
    by blast
  with v have e: "extract_education ''B.Sc. - MIT\<newline>notes\<newline>MBA, Harvard 2001''
       = Inr [\<lparr>degree = ''B.Sc.'', institution = ''MIT'', year = [], raw = ''B.Sc. - MIT''\<rparr>,
              \<lparr>degree = ''MBA'', institution = ''Harvard 2001'', year = ''2001'',
                raw = ''MBA, Harvard 2001''\<rparr>]"
    by (simp only:)
  from h p e show ?thesis by (intro conjI)
qed

section \<open>No exception from the extraction\<close>



section \<open>The date tokens of an experience entry\<close>

text \<open>
  C10. For every section text, every string in the \<open>date_tokens\<close> of every entry that
  \<open>parse_experience\<close> returns holds a four-digit year beginning 19 or 20, or the word
  \<open>present\<close> in any case; so no element of \<open>date_tokens\<close> is a bare month name.
\<close>

theorem date_tokens_dated:
  assumes "e \<in> set (parse_experience section_text)" and "tk \<in> set (date_tokens e)"
  shows "(has_year tk \<or> has_present tk) \<and> lower tk \<notin> set MONTH_NAMES"
proof -
  from assms have "re_found True YEAR_OR_PRESENT tk"
    by (simp add: parse_experience_tokens date_tokens_of_found)
  then have d: "has_year tk \<or> has_present tk" by (rule found_year_or_present)
  then have "list_ex is_digit (lower tk) \<or> sublist ''present'' (lower tk)"
    by (auto simp: has_present_def dest: has_year_digit)
  with month_names_plain have "lower tk \<notin> set MONTH_NAMES" by blast
  with d show ?thesis by simp
qed

theorem date_tokens_dated_witness:
  "parse_experience ''Engineer, Acme (Jan 2020 - Present)'' \<noteq> []
   \<and> date_tokens (hd (parse_experience ''Engineer, Acme (Jan 2020 - Present)'')) = [''Jan 2020'']
   \<and> (has_year ''Jan 2020'' \<or> has_present ''Jan 2020'')
   \<and> lower ''Jan 2020'' \<notin> set MONTH_NAMES"
proof -
  define es where "es = parse_experience ''Engineer, Acme (Jan 2020 - Present)''"
  have v: "map date_tokens es = [[''Jan 2020'']]"
    unfolding es_def by code_simp
  then have n: "es \<noteq> []" by auto
  from v n have t: "date_tokens (hd es) = [''Jan 2020'']"
    by (cases es) auto
  from n have a: "hd es \<in> set es" by (rule hd_in_set)
  have b: "''Jan 2020'' \<in> set (date_tokens (hd es))"
    unfolding t by simp
  from a have a': "hd es \<in> set (parse_experience ''Engineer, Acme (Jan 2020 - Present)'')"
    unfolding es_def .
  from date_tokens_dated [OF a' b]
  have c: "(has_year ''Jan 2020'' \<or> has_present ''Jan 2020'')
     \<and> lower ''Jan 2020'' \<notin> set MONTH_NAMES" .
  from n t c show ?thesis unfolding es_def by blast
qed

end
